theory Spec2Isabelle
  imports Complex_Main "HOL-Library.AList" "HOL-Library.Product_Lexorder"
begin

section \<open>Intersection.hpp: \<open>intersect_genes\<close>\<close>

text \<open>
  \<open>intersect_genes(test_ngenes, test_id, ref_ngenes, ref_id)\<close> receives two arrays of
  identifiers with their lengths. An array is a list here and its length is the list's
  length. \<open>Index_\<close> is the type of the row indices and of the gene counts at once, so a
  loop counter \<open>i < ngenes\<close> never leaves the type: indices are \<open>nat\<close>.
  \<open>std::unordered_map<Id_, Index_>\<close> is a partial map: \<open>find\<close> is application,
  \<open>ref_found[current] = i\<close> is map update and \<open>erase\<close> resets the key to \<open>None\<close>.
  The map is never iterated, so its internal order does not matter.
\<close>

type_synonym genes_Intersection = "(nat \<times> nat) list"

text \<open>First loop (lines 44-50): \<open>i\<close> is the loop counter, the list is \<open>ref_id[i..]\<close>.\<close>

fun ref_found_loop :: "nat \<Rightarrow> 'id list \<Rightarrow> ('id \<rightharpoonup> nat) \<Rightarrow> ('id \<rightharpoonup> nat)" where
  "ref_found_loop i [] ref_found = ref_found"
| "ref_found_loop i (current # rest) ref_found =
     ref_found_loop (Suc i) rest
       (case ref_found current of
          None \<Rightarrow> ref_found(current \<mapsto> i)
        | Some _ \<Rightarrow> ref_found)"

text \<open>Second loop (lines 53-60): the list is \<open>test_id[i..]\<close>, \<open>output\<close> grows at its end.\<close>

fun test_loop ::
  "nat \<Rightarrow> 'id list \<Rightarrow> ('id \<rightharpoonup> nat) \<Rightarrow> genes_Intersection \<Rightarrow> genes_Intersection" where
  "test_loop i [] ref_found output = output"
| "test_loop i (current # rest) ref_found output =
     (case ref_found current of
        Some r \<Rightarrow> test_loop (Suc i) rest (ref_found(current := None)) (output @ [(i, r)])
      | None \<Rightarrow> test_loop (Suc i) rest ref_found output)"

definition intersect_genes :: "'id list \<Rightarrow> 'id list \<Rightarrow> genes_Intersection" where
  "intersect_genes test_id ref_id =
     test_loop 0 test_id (ref_found_loop 0 ref_id Map.empty) []"

section \<open>process\_features.hpp\<close>

subsection \<open>Integer conversions\<close>

text \<open>
  This file counts with \<open>size_t\<close> and stores \<open>int\<close>. The conversion of a \<open>size_t\<close>
  to a 32-bit \<open>int\<close> keeps the value modulo \<open>2^32\<close>, read as two's complement; the
  conversion of an \<open>int\<close> to a 64-bit \<open>size_t\<close> keeps it modulo \<open>2^64\<close>.
\<close>

definition size_t_to_int :: "nat \<Rightarrow> int" where
  "size_t_to_int n =
     (let m = int n mod 2 ^ 32 in if m < 2 ^ 31 then m else m - 2 ^ 32)"

definition int_to_size_t :: "int \<Rightarrow> nat" where
  "int_to_size_t k = nat (k mod 2 ^ 64)"

subsection \<open>\<open>intersect_features\<close>\<close>

text \<open>
  \<open>std::unordered_map<Id, std::pair<int, int>>\<close> is iterated at the end, so it is an
  association list with one entry per key. The entries are kept in the order of their
  first insertion; the order in which the real container hands them out is unspecified,
  and the final \<open>std::sort\<close> removes the difference. \<open>std::pair\<close> is compared
  lexicographically, which is the order of pairs in \<open>Product_Lexorder\<close>.
\<close>

type_synonym Intersection = "(int \<times> int) list"

text \<open>Lines 17-19: \<open>intersection[mat_id[i]] = std::make_pair<int, int>(i, -1)\<close>.\<close>

fun mat_loop :: "nat \<Rightarrow> 'id list \<Rightarrow> ('id \<times> int \<times> int) list \<Rightarrow> ('id \<times> int \<times> int) list" where
  "mat_loop i [] intersection = intersection"
| "mat_loop i (current # rest) intersection =
     mat_loop (Suc i) rest (AList.update current (size_t_to_int i, - 1) intersection)"

text \<open>Lines 21-26: \<open>(it->second).second = i\<close> for an identifier that is found.\<close>

fun ref_loop :: "nat \<Rightarrow> 'id list \<Rightarrow> ('id \<times> int \<times> int) list \<Rightarrow> ('id \<times> int \<times> int) list" where
  "ref_loop i [] intersection = intersection"
| "ref_loop i (current # rest) intersection =
     ref_loop (Suc i) rest
       (case map_of intersection current of
          None \<Rightarrow> intersection
        | Some x \<Rightarrow> AList.update current (fst x, size_t_to_int i) intersection)"

text \<open>Lines 28-34: the entries whose second index is not negative.\<close>

definition pairings_of :: "('id \<times> int \<times> int) list \<Rightarrow> Intersection" where
  "pairings_of intersection = filter (\<lambda>x. snd x \<ge> 0) (map snd intersection)"

definition intersect_features :: "'id list \<Rightarrow> 'id list \<Rightarrow> Intersection" where
  "intersect_features mat_id ref_id =
     sort (pairings_of (ref_loop 0 ref_id (mat_loop 0 mat_id [])))"

subsection \<open>The traversal of the marker lists\<close>

text \<open>
  \<open>Markers\<close> is \<open>std::vector<std::vector<std::vector<int>>>\<close>: \<open>markers[i][j]\<close> is
  the list of genes for the ordered label pair \<open>(i, j)\<close>. Both overloads of
  \<open>subset_markers\<close> walk it in the same way,
  \<^verbatim>\<open>for (i...) for (j...) { if (i == j) continue; auto& current = markers[i][j]; ... }\<close>
  and differ in the body only. The body receives the state that is carried from one list
  to the next (a set of genes, or nothing) and the current list, and returns the new list
  and state, or the error that leaves the function.
\<close>

type_synonym Markers = "int list list list"

datatype error =
    LengthError             \<comment> \<open>\<open>std::length_error\<close> of \<open>std::vector::reserve\<close>\<close>
  | EndIteratorDereference  \<comment> \<open>\<open>it->second\<close> where \<open>it\<close> is \<open>mapping.end()\<close>\<close>

fun row_loop ::
  "('s \<Rightarrow> int list \<Rightarrow> error + (int list \<times> 's)) \<Rightarrow> nat \<Rightarrow> nat \<Rightarrow> int list list \<Rightarrow> 's
    \<Rightarrow> error + (int list list \<times> 's)" where
  "row_loop body i j [] s = Inr ([], s)"
| "row_loop body i j (current # rest) s =
     (if i = j then
        (case row_loop body i (Suc j) rest s of
           Inl e \<Rightarrow> Inl e
         | Inr (rest', s') \<Rightarrow> Inr (current # rest', s'))
      else
        (case body s current of
           Inl e \<Rightarrow> Inl e
         | Inr (current', s1) \<Rightarrow>
             (case row_loop body i (Suc j) rest s1 of
                Inl e \<Rightarrow> Inl e
              | Inr (rest', s') \<Rightarrow> Inr (current' # rest', s'))))"

fun rows_loop ::
  "('s \<Rightarrow> int list \<Rightarrow> error + (int list \<times> 's)) \<Rightarrow> nat \<Rightarrow> Markers \<Rightarrow> 's
    \<Rightarrow> error + (Markers \<times> 's)" where
  "rows_loop body i [] s = Inr ([], s)"
| "rows_loop body i (row # rest) s =
     (case row_loop body i 0 row s of
        Inl e \<Rightarrow> Inl e
      | Inr (row', s1) \<Rightarrow>
          (case rows_loop body (Suc i) rest s1 of
             Inl e \<Rightarrow> Inl e
           | Inr (rest', s') \<Rightarrow> Inr (row' # rest', s')))"

subsection \<open>\<open>subset_markers(intersection, markers, top)\<close>\<close>

text \<open>Lines 43-47: the reference indices of the intersection, an \<open>unordered_set<int>\<close>.\<close>

definition available_of :: "Intersection \<Rightarrow> int set" where
  "available_of intersection = fold (\<lambda>entry. insert (snd entry)) intersection {}"

text \<open>
  Lines 62-67, the loop over \<open>k\<close>: the list is \<open>current[k..]\<close>, \<open>top_n\<close> is
  \<open>static_cast<size_t>(top)\<close>. (The parameter \<open>top\<close> is written \<open>top_n\<close> throughout,
  since \<open>top\<close> is a constant of HOL.)
\<close>

fun keep_loop :: "int set \<Rightarrow> nat \<Rightarrow> int list \<Rightarrow> int list \<Rightarrow> int set \<Rightarrow> int list \<times> int set" where
  "keep_loop available top_n [] replacement all_markers = (replacement, all_markers)"
| "keep_loop available top_n (g # rest) replacement all_markers =
     (if length replacement < top_n then
        (if g \<in> available
         then keep_loop available top_n rest (replacement @ [g]) (insert g all_markers)
         else keep_loop available top_n rest replacement all_markers)
      else (replacement, all_markers))"

text \<open>
  Lines 58-69. \<open>replacement.reserve(top)\<close> converts \<open>top\<close> to \<open>size_t\<close>; a negative
  \<open>top\<close> becomes a size above \<open>max_size()\<close> and \<open>reserve\<close> throws.
\<close>

definition retain_top :: "int set \<Rightarrow> int \<Rightarrow> int set \<Rightarrow> int list \<Rightarrow> error + (int list \<times> int set)" where
  "retain_top available top_n all_markers current =
     (if top_n < 0 then Inl LengthError
      else Inr (keep_loop available (int_to_size_t top_n) current [] all_markers))"

text \<open>
  Lines 77-85: the intersection is compacted in place, \<open>counter\<close> follows \<open>i\<close>, and
  \<open>resize(counter)\<close> cuts the rest off.
\<close>

function compact_loop ::
  "int set \<Rightarrow> nat \<Rightarrow> nat \<Rightarrow> Intersection \<Rightarrow> (int \<rightharpoonup> int) \<Rightarrow> Intersection \<times> (int \<rightharpoonup> int)" where
  "compact_loop all_markers i counter intersection mapping =
     (if i < length intersection then
        (if snd (intersection ! i) \<in> all_markers then
           (let intersection' = intersection[counter := intersection ! i];
                mapping' = mapping(snd (intersection' ! i) \<mapsto> size_t_to_int counter)
            in compact_loop all_markers (Suc i) (Suc counter) intersection' mapping')
         else compact_loop all_markers (Suc i) counter intersection mapping)
      else (take counter intersection, mapping))"
  by pat_completeness auto
termination
  by (relation "measure (\<lambda>(all_markers, i, counter, intersection, mapping). length intersection - i)")
     auto

declare compact_loop.simps [simp del]

text \<open>Lines 96-99: \<open>current[k] = it->second\<close> with no test of \<open>it\<close>.\<close>

fun reindex_loop :: "(int \<rightharpoonup> int) \<Rightarrow> int list \<Rightarrow> error + int list" where
  "reindex_loop mapping [] = Inr []"
| "reindex_loop mapping (g # rest) =
     (case mapping g of
        None \<Rightarrow> Inl EndIteratorDereference
      | Some v \<Rightarrow>
          (case reindex_loop mapping rest of
             Inl e \<Rightarrow> Inl e
           | Inr rest' \<Rightarrow> Inr (v # rest')))"

definition reindex :: "(int \<rightharpoonup> int) \<Rightarrow> unit \<Rightarrow> int list \<Rightarrow> error + (int list \<times> unit)" where
  "reindex mapping s current =
     (case reindex_loop mapping current of
        Inl e \<Rightarrow> Inl e
      | Inr current' \<Rightarrow> Inr (current', s))"

text \<open>The first phase alone (lines 43-71): the filtered lists and \<open>all_markers\<close>.\<close>

definition retain_phase :: "Intersection \<Rightarrow> Markers \<Rightarrow> int \<Rightarrow> error + (Markers \<times> int set)" where
  "retain_phase intersection markers top_n =
     rows_loop (retain_top (available_of intersection) top_n) 0 markers {}"

text \<open>
  The function changes \<open>intersection\<close> and \<open>markers\<close> through references; the model
  returns both.
\<close>

definition subset_markers :: "Intersection \<Rightarrow> Markers \<Rightarrow> int \<Rightarrow> error + (Intersection \<times> Markers)" where
  "subset_markers intersection markers top_n =
     (case retain_phase intersection markers top_n of
        Inl e \<Rightarrow> Inl e
      | Inr (markers1, all_markers) \<Rightarrow>
          (case compact_loop all_markers 0 0 intersection Map.empty of
             (intersection', mapping) \<Rightarrow>
               (case rows_loop (reindex mapping) 0 markers1 () of
                  Inl e \<Rightarrow> Inl e
                | Inr (markers2, _) \<Rightarrow> Inr (intersection', markers2))))"

subsection \<open>\<open>subset_markers(markers, top)\<close>, for identical feature spaces\<close>

text \<open>
  Lines 114-116: \<open>resize\<close> to a size that is at most the current one keeps a prefix;
  the kept genes go into \<open>available\<close>.
\<close>

definition truncate_top :: "int \<Rightarrow> int set \<Rightarrow> int list \<Rightarrow> error + (int list \<times> int set)" where
  "truncate_top top_n available current =
     (let current' = take (min (length current) (int_to_size_t top_n)) current
      in Inr (current', available \<union> set current'))"

text \<open>Lines 125-127: \<open>mapping[subset[i]] = i\<close>, the list is \<open>subset[i..]\<close>.\<close>

fun mapping_loop :: "nat \<Rightarrow> int list \<Rightarrow> (int \<rightharpoonup> int) \<Rightarrow> (int \<rightharpoonup> int)" where
  "mapping_loop i [] mapping = mapping"
| "mapping_loop i (g # rest) mapping = mapping_loop (Suc i) rest (mapping(g \<mapsto> size_t_to_int i))"

text \<open>
  Lines 120-121: the vector built from the unordered set and sorted is the sorted list
  of the set's elements. The function returns \<open>subset\<close> and changes \<open>markers\<close>.
\<close>

definition subset_markers_identical :: "Markers \<Rightarrow> int \<Rightarrow> error + (int list \<times> Markers)" where
  "subset_markers_identical markers top_n =
     (case rows_loop (truncate_top top_n) 0 markers {} of
        Inl e \<Rightarrow> Inl e
      | Inr (markers1, available) \<Rightarrow>
          (let subset = sorted_list_of_set available;
               mapping = mapping_loop 0 subset Map.empty
           in case rows_loop (reindex mapping) 0 markers1 () of
                Inl e \<Rightarrow> Inl e
              | Inr (markers2, _) \<Rightarrow> Inr (subset, markers2)))"

text \<open>\<open>unzip\<close> (lines 147-154).\<close>

definition unzip :: "Intersection \<Rightarrow> int list \<times> int list" where
  "unzip intersection = (map fst intersection, map snd intersection)"

section \<open>classify\_integrated.hpp\<close>

text \<open>
  A value of the floating-point type \<open>Float_\<close> is the not-a-number or a number, taken
  as the real it stands for (the two infinities are left out: a score is a quantile of
  correlations). Comparison is exact on numbers and false as soon as one side is the
  not-a-number. Subtraction rounds, so it is not real subtraction: it is the parameter
  \<open>float_minus\<close> of the functions below.
\<close>

datatype Float = NaN | Finite real

fun float_greater :: "Float \<Rightarrow> Float \<Rightarrow> bool" where
  "float_greater (Finite a) (Finite b) = (a > b)"
| "float_greater _ _ = False"

text \<open>
  \<open>ClassifyIntegratedBuffers\<close>: a pointer is \<open>None\<close> when it is null, and otherwise
  the array it points to, indexed by the cell; \<open>scores\<close> is a vector of such pointers.
\<close>

record ClassifyIntegratedBuffers =
  best :: "(nat \<Rightarrow> nat) option"
  scores :: "(nat \<Rightarrow> Float) option list"
  delta :: "(nat \<Rightarrow> Float) option"

text \<open>The variables of lines 166-167, which the loop over the references updates.\<close>

record running =
  best_score :: Float
  next_best :: Float
  best_ref :: nat

definition initial_running :: running where
  "initial_running = \<lparr>best_score = Finite (- 1000), next_best = Finite (- 1000), best_ref = 0\<rparr>"

text \<open>Lines 222-228.\<close>

definition track :: "Float \<Rightarrow> nat \<Rightarrow> running \<Rightarrow> running" where
  "track score r st =
     (if float_greater score (best_score st) then
        \<lparr>best_score = score, next_best = best_score st, best_ref = r\<rparr>
      else if float_greater score (next_best st) then
        st\<lparr>next_best := score\<rparr>
      else st)"

text \<open>
  Lines 219-221. \<open>buffers.scores[r]\<close> is read without a check; the result is \<open>None\<close>
  when the vector is shorter than that.
\<close>

definition record_score ::
  "ClassifyIntegratedBuffers \<Rightarrow> nat \<Rightarrow> nat \<Rightarrow> Float \<Rightarrow> ClassifyIntegratedBuffers option" where
  "record_score buffers r i score =
     (if r < length (scores buffers) then
        Some (case scores buffers ! r of
                None \<Rightarrow> buffers
              | Some column \<Rightarrow> buffers\<lparr>scores := (scores buffers)[r := Some (column(i := score))]\<rparr>)
      else None)"

text \<open>A \<open>for\<close> loop over the given values of its counter, left when the body fails.\<close>

fun for_loop :: "(nat \<Rightarrow> 's \<Rightarrow> 's option) \<Rightarrow> nat list \<Rightarrow> 's \<Rightarrow> 's option" where
  "for_loop body [] s = Some s"
| "for_loop body (x # xs) s =
     (case body x s of
        None \<Rightarrow> None
      | Some s' \<Rightarrow> for_loop body xs s')"

text \<open>
  The body of the loop over the references (lines 170-229) for cell \<open>i\<close> and reference
  \<open>r\<close>. Lines 146-163 and 171-218 compute \<open>score\<close> from the test matrix, the assigned
  labels, the trained references and the quantile with \<open>RankRemapper\<close>,
  \<open>scaled_ranks\<close>, \<open>distance_to_correlation\<close> and \<open>correlations_to_scores\<close>, which
  are defined in other files; \<open>score_of r i\<close> stands for the value they return.
\<close>

definition reference_step ::
  "(nat \<Rightarrow> nat \<Rightarrow> Float) \<Rightarrow> nat \<Rightarrow> nat \<Rightarrow> ClassifyIntegratedBuffers \<times> running
    \<Rightarrow> (ClassifyIntegratedBuffers \<times> running) option" where
  "reference_step score_of i r = (\<lambda>(buffers, st).
     (let score = score_of r i in
      case record_score buffers r i score of
        None \<Rightarrow> None
      | Some buffers' \<Rightarrow> Some (buffers', track score r st)))"

text \<open>One turn of the loop over the cells (lines 145-241).\<close>

definition classify_cell ::
  "(nat \<Rightarrow> nat \<Rightarrow> Float) \<Rightarrow> (Float \<Rightarrow> Float \<Rightarrow> Float) \<Rightarrow> nat \<Rightarrow> nat
    \<Rightarrow> ClassifyIntegratedBuffers \<Rightarrow> ClassifyIntegratedBuffers option" where
  "classify_cell score_of float_minus nref i buffers =
     (case for_loop (reference_step score_of i) [0..<nref] (buffers, initial_running) of
        None \<Rightarrow> None
      | Some (buffers1, st) \<Rightarrow>
          (let buffers2 =
                 (case best buffers1 of
                    None \<Rightarrow> buffers1
                  | Some b \<Rightarrow> buffers1\<lparr>best := Some (b(i := best_ref st))\<rparr>);
               buffers3 =
                 (case delta buffers2 of
                    None \<Rightarrow> buffers2
                  | Some d \<Rightarrow>
                      buffers2\<lparr>delta := Some (d(i :=
                        (if nref > 1 then float_minus (best_score st) (next_best st)
                         else NaN)))\<rparr>)
           in Some buffers3))"

text \<open>
  The function passed to \<open>tatami::parallelize\<close> (lines 124-243), which is called with
  a block of cells \<open>start, ..., start + len - 1\<close>.
\<close>

definition classify_block ::
  "(nat \<Rightarrow> nat \<Rightarrow> Float) \<Rightarrow> (Float \<Rightarrow> Float \<Rightarrow> Float) \<Rightarrow> nat \<Rightarrow> nat \<Rightarrow> nat
    \<Rightarrow> ClassifyIntegratedBuffers \<Rightarrow> ClassifyIntegratedBuffers option" where
  "classify_block score_of float_minus nref start len buffers =
     for_loop (classify_cell score_of float_minus nref) [start..<start + len] buffers"

section \<open>Notions used in the proofs\<close>

text \<open>A map that sends different keys to different values.\<close>

definition one_to_one :: "('k \<rightharpoonup> nat) \<Rightarrow> bool" where
  "one_to_one m \<longleftrightarrow> (\<forall>k k' v. m k = Some v \<and> m k' = Some v \<longrightarrow> k = k')"

text \<open>
  The invariant of \<open>ref_loop\<close>: the reference indices stored so far (those that are not
  \<open>-1\<close>) are pairwise different and below the loop counter.
\<close>

definition seconds_ok :: "nat \<Rightarrow> ('id \<times> int \<times> int) list \<Rightarrow> bool" where
  "seconds_ok i al \<longleftrightarrow>
     distinct (filter (\<lambda>b. 0 \<le> b) (map (\<lambda>e. snd (snd e)) al)) \<and> (\<forall>e\<in>set al. snd (snd e) < int i)"

text \<open>
  The lists that the traversal of the marker lists hands to its body, in this order:
  the entries \<open>markers[i + a][b]\<close> with \<open>b \<noteq> i + a\<close>.
\<close>

fun off_diagonal_row :: "nat \<Rightarrow> nat \<Rightarrow> 'a list \<Rightarrow> 'a list" where
  "off_diagonal_row i j [] = []"
| "off_diagonal_row i j (c # cs) =
     (if i = j then off_diagonal_row i (Suc j) cs else c # off_diagonal_row i (Suc j) cs)"

fun off_diagonal :: "nat \<Rightarrow> 'a list list \<Rightarrow> 'a list" where
  "off_diagonal i [] = []"
| "off_diagonal i (row # rows) = off_diagonal_row i 0 row @ off_diagonal (Suc i) rows"

text \<open>A function applied to every entry off the diagonal.\<close>

fun apply_row :: "('a \<Rightarrow> 'a) \<Rightarrow> nat \<Rightarrow> nat \<Rightarrow> 'a list \<Rightarrow> 'a list" where
  "apply_row f i j [] = []"
| "apply_row f i j (c # cs) = (if i = j then c else f c) # apply_row f i (Suc j) cs"

fun apply_rows :: "('a \<Rightarrow> 'a) \<Rightarrow> nat \<Rightarrow> 'a list list \<Rightarrow> 'a list list" where
  "apply_rows f i [] = []"
| "apply_rows f i (row # rows) = apply_row f i 0 row # apply_rows f (Suc i) rows"

text \<open>
  The compaction of the intersection as a function of the part of the list that is still
  to be read: what is kept, and the mapping after it.
\<close>

fun compact_spec :: "int set \<Rightarrow> nat \<Rightarrow> Intersection \<Rightarrow> (int \<rightharpoonup> int) \<Rightarrow> Intersection \<times> (int \<rightharpoonup> int)" where
  "compact_spec all_markers counter [] mapping = ([], mapping)"
| "compact_spec all_markers counter (p # ps) mapping =
     (if snd p \<in> all_markers then
        (p # fst (compact_spec all_markers (Suc counter) ps (mapping(snd p \<mapsto> size_t_to_int counter))),
         snd (compact_spec all_markers (Suc counter) ps (mapping(snd p \<mapsto> size_t_to_int counter))))
      else compact_spec all_markers counter ps mapping)"

text \<open>
  The variables \<open>best_score\<close>, \<open>next_best\<close> and \<open>best_ref\<close> of one cell after the
  first \<open>n\<close> references, whose scores are \<open>sc 0, ..., sc (n - 1)\<close>.
\<close>

definition running_after :: "(nat \<Rightarrow> Float) \<Rightarrow> nat \<Rightarrow> running" where
  "running_after sc n = fold (\<lambda>r. track (sc r) r) [0..<n] initial_running"

text \<open>
  The invariant of the loop over the references, for any scores: both variables hold
  numbers, \<open>-1000 \<le> next_best \<le> best_score\<close>, no score seen so far is greater than
  \<open>best_score\<close>, and \<open>best_ref\<close> is the first reference with this score as soon as
  one score is above \<open>-1000\<close>.
\<close>

definition best_invariant :: "(nat \<Rightarrow> Float) \<Rightarrow> nat \<Rightarrow> running \<Rightarrow> bool" where
  "best_invariant sc n st \<longleftrightarrow>
     (\<exists>b q. best_score st = Finite b \<and> next_best st = Finite q \<and> - 1000 \<le> q \<and> q \<le> b \<and>
        (\<forall>r<n. \<not> float_greater (sc r) (Finite b)) \<and>
        ((b = - 1000 \<and> best_ref st = 0) \<or>
         (- 1000 < b \<and> best_ref st < n \<and> sc (best_ref st) = Finite b \<and>
          (\<forall>r<best_ref st. sc r \<noteq> Finite b))))"

text \<open>
  The invariant for scores \<open>x r\<close> that are numbers above \<open>-1000\<close>, after at least
  one reference: \<open>best_ref\<close> has the greatest score, and from two references on
  \<open>next_best\<close> is the greatest score of the other references.
\<close>

definition second_invariant :: "(nat \<Rightarrow> real) \<Rightarrow> nat \<Rightarrow> running \<Rightarrow> bool" where
  "second_invariant x n st \<longleftrightarrow>
     best_ref st < n \<and> best_score st = Finite (x (best_ref st)) \<and>
     (\<forall>r<n. x r \<le> x (best_ref st)) \<and>
     (n = 1 \<longrightarrow> next_best st = Finite (- 1000)) \<and>
     (2 \<le> n \<longrightarrow>
        (\<exists>s<n. s \<noteq> best_ref st \<and> next_best st = Finite (x s) \<and>
           (\<forall>r<n. r \<noteq> best_ref st \<longrightarrow> x r \<le> x s)))"

section \<open>Properties of \<open>intersect_genes\<close>\<close>

lemma ref_found_loop_one_to_one:
  "one_to_one m \<Longrightarrow> (\<forall>k v. m k = Some v \<longrightarrow> v < i) \<Longrightarrow> one_to_one (ref_found_loop i cs m)"
proof (induction cs arbitrary: i m)
  case Nil
  then show ?case by simp
next
  case (Cons c cs)
  show ?case
  proof (cases "m c")
    case None
    have a: "one_to_one (m(c \<mapsto> i))"
      using Cons.prems None unfolding one_to_one_def by (auto split: if_splits)
    have b: "\<forall>k v. (m(c \<mapsto> i)) k = Some v \<longrightarrow> v < Suc i"
      using Cons.prems(2) by (auto simp: less_Suc_eq)
    show ?thesis using None by (simp add: Cons.IH [OF a b])
  next
    case (Some v)
    have b: "\<forall>k v. m k = Some v \<longrightarrow> v < Suc i"
      using Cons.prems(2) by (auto simp: less_Suc_eq)
    show ?thesis using Some by (simp add: Cons.IH [OF Cons.prems(1) b])
  qed
qed

lemma ref_found_loop_dom: "dom (ref_found_loop i cs m) = dom m \<union> set cs"
  by (induction cs arbitrary: i m) (auto split: option.splits)

lemma test_loop_fst_sorted:
  "sorted_wrt (<) (map fst out) \<Longrightarrow> \<forall>p\<in>set out. fst p < i
    \<Longrightarrow> sorted_wrt (<) (map fst (test_loop i cs m out))"
proof (induction cs arbitrary: i m out)
  case Nil
  then show ?case by simp
next
  case (Cons c cs)
  show ?case
  proof (cases "m c")
    case None
    have "\<forall>p\<in>set out. fst p < Suc i" using Cons.prems(2) by (auto simp: less_Suc_eq)
    then show ?thesis using None by (simp add: Cons.IH [OF Cons.prems(1)])
  next
    case (Some r)
    have a: "sorted_wrt (<) (map fst (out @ [(i, r)]))"
      using Cons.prems by (auto simp: sorted_wrt_append)
    have b: "\<forall>p\<in>set (out @ [(i, r)]). fst p < Suc i"
      using Cons.prems(2) by (auto simp: less_Suc_eq)
    show ?thesis using Some by (simp add: Cons.IH [OF a b])
  qed
qed

lemma test_loop_snd_distinct:
  "one_to_one m \<Longrightarrow> distinct (map snd out) \<Longrightarrow> \<forall>p\<in>set out. \<forall>k. m k \<noteq> Some (snd p)
    \<Longrightarrow> distinct (map snd (test_loop i cs m out))"
proof (induction cs arbitrary: i m out)
  case Nil
  then show ?case by simp
next
  case (Cons c cs)
  show ?case
  proof (cases "m c")
    case None
    then show ?thesis by (simp add: Cons.IH [OF Cons.prems])
  next
    case (Some r)
    have a: "one_to_one (m(c := None))"
      using Cons.prems(1) unfolding one_to_one_def by (auto split: if_splits)
    have b: "distinct (map snd (out @ [(i, r)]))"
      using Cons.prems(2,3) Some by auto
    have c: "\<forall>p\<in>set (out @ [(i, r)]). \<forall>k. (m(c := None)) k \<noteq> Some (snd p)"
      using Cons.prems(1,3) Some unfolding one_to_one_def by auto
    show ?thesis using Some by (simp add: Cons.IH [OF a b c])
  qed
qed

lemma test_loop_no_match: "set cs \<inter> dom m = {} \<Longrightarrow> test_loop i cs m out = out"
  by (induction cs arbitrary: i) (auto split: option.splits)

lemma ref_found_loop_lookup:
  "ref_found_loop i cs m k =
     (case m k of
        Some v \<Rightarrow> Some v
      | None \<Rightarrow> if k \<in> set cs then Some (i + length (takeWhile (\<lambda>x. x \<noteq> k) cs)) else None)"
  by (induction cs arbitrary: i m) (auto split: option.splits)

lemma length_takeWhile_member: "k \<in> set cs \<Longrightarrow> length (takeWhile (\<lambda>x. x \<noteq> k) cs) < length cs"
  by (induction cs) auto

lemma first_index_iff:
  "k \<in> set cs \<and> r = length (takeWhile (\<lambda>x. x \<noteq> k) cs)
    \<longleftrightarrow> r < length cs \<and> cs ! r = k \<and> (\<forall>r'<r. cs ! r' \<noteq> k)"
proof
  assume a: "k \<in> set cs \<and> r = length (takeWhile (\<lambda>x. x \<noteq> k) cs)"
  let ?t = "takeWhile (\<lambda>x. x \<noteq> k) cs"
  have 1: "r < length cs"
    using a by (simp add: length_takeWhile_member)
  have 2: "cs ! r = k"
    using nth_length_takeWhile [of "\<lambda>x. x \<noteq> k" cs] 1 a by simp
  have 3: "\<forall>r'<r. cs ! r' \<noteq> k"
  proof (intro allI impI)
    fix r' assume "r' < r"
    then have "r' < length ?t" using a by simp
    then have "?t ! r' \<in> set ?t" "?t ! r' = cs ! r'"
      by (rule nth_mem, rule takeWhile_nth)
    then show "cs ! r' \<noteq> k" using set_takeWhileD [of "cs ! r'" "\<lambda>x. x \<noteq> k" cs] by auto
  qed
  show "r < length cs \<and> cs ! r = k \<and> (\<forall>r'<r. cs ! r' \<noteq> k)" using 1 2 3 by blast
next
  assume b: "r < length cs \<and> cs ! r = k \<and> (\<forall>r'<r. cs ! r' \<noteq> k)"
  then have "takeWhile (\<lambda>x. x \<noteq> k) cs = take r cs"
    by (intro takeWhile_eq_take_P_nth) auto
  then show "k \<in> set cs \<and> r = length (takeWhile (\<lambda>x. x \<noteq> k) cs)"
    using b by auto
qed

lemma test_loop_member:
  "(t, r) \<in> set (test_loop i cs m out) \<longleftrightarrow>
     (t, r) \<in> set out \<or>
     (\<exists>j<length cs. t = i + j \<and> m (cs ! j) = Some r \<and> (\<forall>j'<j. cs ! j' \<noteq> cs ! j))"
proof (induction cs arbitrary: i m out)
  case Nil
  then show ?case by simp
next
  case (Cons c cs)
  show ?case
  proof (cases "m c")
    case None
    then show ?thesis
      by (simp add: Cons.IH Ex_less_Suc2 All_less_Suc2) (metis option.distinct(1))
  next
    case (Some v)
    then show ?thesis
      by (simp add: Cons.IH Ex_less_Suc2 All_less_Suc2) metis
  qed
qed

lemma intersect_genes_first_occurrence:
  "(t, r) \<in> set (intersect_genes test_id ref_id) \<longleftrightarrow>
     t < length test_id \<and> r < length ref_id \<and> test_id ! t = ref_id ! r \<and>
     (\<forall>t'<t. test_id ! t' \<noteq> test_id ! t) \<and> (\<forall>r'<r. ref_id ! r' \<noteq> ref_id ! r)"
proof -
  have m: "ref_found_loop 0 ref_id Map.empty k = Some r \<longleftrightarrow>
      r < length ref_id \<and> ref_id ! r = k \<and> (\<forall>r'<r. ref_id ! r' \<noteq> k)" for k
    using first_index_iff [of k ref_id r] by (auto simp: ref_found_loop_lookup)
  show ?thesis
    unfolding intersect_genes_def test_loop_member m by auto
qed

section \<open>Properties of \<open>intersect_features\<close>\<close>

lemma size_t_to_int_small: "n < 2 ^ 31 \<Longrightarrow> size_t_to_int n = int n"
  by (simp add: size_t_to_int_def Let_def)

lemma update_cases:
  "(map_of al k = None \<and> AList.update k v al = al @ [(k, v)]) \<or>
   (\<exists>j<length al. fst (al ! j) = k \<and> map_of al k = Some (snd (al ! j))
      \<and> AList.update k v al = al[j := (k, v)])"
proof (induction al)
  case Nil
  then show ?case by simp
next
  case (Cons p ps)
  show ?case
  proof (cases "fst p = k")
    case True
    then have "0 < length (p # ps) \<and> fst ((p # ps) ! 0) = k
        \<and> map_of (p # ps) k = Some (snd ((p # ps) ! 0))
        \<and> AList.update k v (p # ps) = (p # ps)[0 := (k, v)]"
      by (cases p) auto
    then show ?thesis by blast
  next
    case False
    from Cons.IH show ?thesis
    proof
      assume "map_of ps k = None \<and> AList.update k v ps = ps @ [(k, v)]"
      then show ?thesis using False by (cases p) auto
    next
      assume "\<exists>j<length ps. fst (ps ! j) = k \<and> map_of ps k = Some (snd (ps ! j))
        \<and> AList.update k v ps = ps[j := (k, v)]"
      then obtain j where j: "j < length ps" "fst (ps ! j) = k"
        "map_of ps k = Some (snd (ps ! j))" "AList.update k v ps = ps[j := (k, v)]"
        by blast
      then have "Suc j < length (p # ps) \<and> fst ((p # ps) ! Suc j) = k
        \<and> map_of (p # ps) k = Some (snd ((p # ps) ! Suc j))
        \<and> AList.update k v (p # ps) = (p # ps)[Suc j := (k, v)]"
        using False by (cases p) auto
      then show ?thesis by blast
    qed
  qed
qed

lemma set_AList_update: "set (AList.update k v al) \<subseteq> insert (k, v) (set al)"
  by (induction al) auto

lemma snd_pairings:
  "map snd (filter (\<lambda>x. 0 \<le> snd x) (map snd al)) = filter (\<lambda>b. 0 \<le> b) (map (\<lambda>e. snd (snd e)) al)"
  by (induction al) auto

lemma distinct_map_update_fresh:
  assumes "distinct (map g al)" and "\<forall>e\<in>set al. g e \<noteq> g e'"
  shows "distinct (map g (al[j := e']))"
proof -
  have "g e' \<notin> set (map g al)" using assms(2) by auto
  then have "distinct ((map g al)[j := g e'])"
    using assms(1) by (simp add: distinct_list_update)
  then show ?thesis by (simp add: map_update)
qed

lemma distinct_filter_update_fresh:
  "distinct (filter P xs) \<Longrightarrow> (P y \<longrightarrow> y \<notin> set xs) \<Longrightarrow> distinct (filter P (xs[j := y]))"
proof (induction xs arbitrary: j)
  case Nil
  then show ?case by simp
next
  case (Cons x xs)
  show ?case
  proof (cases j)
    case 0
    then show ?thesis using Cons.prems by (auto split: if_splits)
  next
    case (Suc j')
    have "set (xs[j' := y]) \<subseteq> insert y (set xs)" by (rule set_update_subset_insert)
    then have "P x \<Longrightarrow> x \<notin> set (filter P (xs[j' := y]))"
      using Cons.prems by (auto split: if_splits)
    moreover have "distinct (filter P (xs[j' := y]))"
      using Cons.IH [of j'] Cons.prems by (auto split: if_splits)
    ultimately show ?thesis using Suc by simp
  qed
qed

lemma mat_loop_keys: "fst ` set (mat_loop i cs al) = fst ` set al \<union> set cs"
proof (induction cs arbitrary: i al)
  case Nil
  then show ?case by simp
next
  case (Cons c cs)
  have "fst ` set (AList.update c (size_t_to_int i, - 1) al) = insert c (fst ` set al)"
    using AList.dom_update [of c "(size_t_to_int i, - 1)" al] by (simp add: dom_map_of_conv_image_fst)
  then show ?case by (simp add: Cons.IH)
qed

lemma mat_loop_seconds:
  "\<forall>e\<in>set al. snd (snd e) = - 1 \<Longrightarrow> \<forall>e\<in>set (mat_loop i cs al). snd (snd e) = - 1"
proof (induction cs arbitrary: i al)
  case Nil
  then show ?case by simp
next
  case (Cons c cs)
  have "set (AList.update c (size_t_to_int i, - 1) al) \<subseteq> insert (c, (size_t_to_int i, - 1)) (set al)"
    by (rule set_AList_update)
  then have "\<forall>e\<in>set (AList.update c (size_t_to_int i, - 1) al). snd (snd e) = - 1"
    using Cons.prems by auto
  then show ?case by (simp add: Cons.IH)
qed

lemma mat_loop_firsts:
  "distinct (map (\<lambda>e. fst (snd e)) al) \<Longrightarrow> \<forall>e\<in>set al. fst (snd e) < int i
    \<Longrightarrow> i + length cs \<le> 2 ^ 31
    \<Longrightarrow> distinct (map (\<lambda>e. fst (snd e)) (mat_loop i cs al))"
proof (induction cs arbitrary: i al)
  case Nil
  then show ?case by simp
next
  case (Cons c cs)
  let ?v = "(size_t_to_int i, - 1 :: int)"
  let ?al = "AList.update c ?v al"
  have i: "size_t_to_int i = int i" using Cons.prems(3) by (simp add: size_t_to_int_small)
  have fresh: "\<forall>e\<in>set al. (\<lambda>e. fst (snd e)) e \<noteq> (\<lambda>e. fst (snd e)) (c, ?v)"
    using Cons.prems(2) i by auto
  have sub: "set ?al \<subseteq> insert (c, ?v) (set al)"
    by (rule set_AList_update)
  have a: "distinct (map (\<lambda>e. fst (snd e)) ?al)"
    using update_cases [of al c ?v]
  proof
    assume "map_of al c = None \<and> ?al = al @ [(c, ?v)]"
    then show ?thesis using Cons.prems(1) fresh by auto
  next
    assume "\<exists>j<length al. fst (al ! j) = c \<and> map_of al c = Some (snd (al ! j)) \<and> ?al = al[j := (c, ?v)]"
    then obtain j where "?al = al[j := (c, ?v)]" by blast
    then show ?thesis using distinct_map_update_fresh [OF Cons.prems(1) fresh] by simp
  qed
  have b: "\<forall>e\<in>set ?al. fst (snd e) < int (Suc i)"
    using sub Cons.prems(2) i by fastforce
  have c: "Suc i + length cs \<le> 2 ^ 31" using Cons.prems(3) by simp
  show ?case using Cons.IH [OF a b c] by simp
qed

lemma ref_loop_no_match: "set cs \<inter> fst ` set al = {} \<Longrightarrow> ref_loop i cs al = al"
proof (induction cs arbitrary: i)
  case Nil
  then show ?case by simp
next
  case (Cons c cs)
  then have "map_of al c = None" by (auto simp: map_of_eq_None_iff)
  then show ?case using Cons by simp
qed

lemma ref_loop_invariant:
  "seconds_ok i al \<Longrightarrow> i + length cs \<le> 2 ^ 31
    \<Longrightarrow> seconds_ok (i + length cs) (ref_loop i cs al)
        \<and> map (\<lambda>e. fst (snd e)) (ref_loop i cs al) = map (\<lambda>e. fst (snd e)) al"
proof (induction cs arbitrary: i al)
  case Nil
  then show ?case by simp
next
  case (Cons c cs)
  have i: "size_t_to_int i = int i" using Cons.prems(2) by (simp add: size_t_to_int_small)
  have c: "Suc i + length cs \<le> 2 ^ 31" using Cons.prems(2) by simp
  show ?case
  proof (cases "map_of al c")
    case None
    have "seconds_ok (Suc i) al" using Cons.prems(1) by (auto simp: seconds_ok_def)
    from Cons.IH [OF this c] show ?thesis using None by simp
  next
    case (Some x)
    let ?v = "(fst x, size_t_to_int i)"
    let ?al = "AList.update c ?v al"
    obtain j where j: "j < length al" "map_of al c = Some (snd (al ! j))" "?al = al[j := (c, ?v)]"
      using update_cases [of al c ?v] Some by auto
    have x: "snd (al ! j) = x" using j(2) Some by simp
    have firsts: "map (\<lambda>e. fst (snd e)) ?al = map (\<lambda>e. fst (snd e)) al"
      using j(1) x by (simp add: j(3) map_update list_update_same_conv)
    have "int i \<notin> set (map (\<lambda>e. snd (snd e)) al)" using Cons.prems(1) by (auto simp: seconds_ok_def)
    then have "distinct (filter (\<lambda>b. 0 \<le> b) ((map (\<lambda>e. snd (snd e)) al)[j := int i]))"
      using Cons.prems(1) by (intro distinct_filter_update_fresh) (auto simp: seconds_ok_def)
    then have d: "distinct (filter (\<lambda>b. 0 \<le> b) (map (\<lambda>e. snd (snd e)) ?al))"
      unfolding j(3) by (simp add: map_update i)
    have "set ?al \<subseteq> insert (c, ?v) (set al)"
      by (rule set_AList_update)
    then have "\<forall>e\<in>set ?al. snd (snd e) < int (Suc i)"
      using Cons.prems(1) i by (fastforce simp: seconds_ok_def)
    with d have "seconds_ok (Suc i) ?al" by (simp add: seconds_ok_def)
    from Cons.IH [OF this c] show ?thesis using Some firsts by simp
  qed
qed

lemma sorted_distinct_fst:
  "sorted (ps :: (int \<times> int) list) \<Longrightarrow> distinct (map fst ps) \<Longrightarrow> sorted_wrt (<) (map fst ps)"
proof (induction ps)
  case Nil
  then show ?case by simp
next
  case (Cons p ps)
  have "\<forall>q\<in>set ps. fst p < fst q"
  proof
    fix q assume q: "q \<in> set ps"
    then have "p \<le> q" using Cons.prems(1) by simp
    then have "fst p \<le> fst q" by (auto simp: less_eq_prod_def)
    moreover have "fst p \<noteq> fst q" using Cons.prems(2) q by auto
    ultimately show "fst p < fst q" by simp
  qed
  then show ?case using Cons by simp
qed

lemma distinct_map_sort:
  "distinct (map f (sort ps)) = distinct (map f ps)"
  by (simp add: distinct_map)

lemma intersect_features_ordered:
  assumes "length mat_id < 2 ^ 31" and "length ref_id < 2 ^ 31"
  shows "sorted_wrt (<) (map fst (intersect_features mat_id ref_id))"
    and "distinct (map snd (intersect_features mat_id ref_id))"
proof -
  let ?m = "mat_loop 0 mat_id []"
  let ?r = "ref_loop 0 ref_id ?m"
  have m1: "distinct (map (\<lambda>e. fst (snd e)) ?m)"
    using assms(1) by (intro mat_loop_firsts) simp_all
  have m2: "\<forall>e\<in>set ?m. snd (snd e) = - 1"
    by (rule mat_loop_seconds) simp
  have "distinct (filter (\<lambda>b. 0 \<le> b) (map (\<lambda>e. snd (snd e)) ?m))"
  proof -
    have "filter (\<lambda>b. 0 \<le> b) (map (\<lambda>e. snd (snd e)) ?m) = []"
      using m2 by (auto simp: filter_empty_conv)
    then show ?thesis by simp
  qed
  then have "seconds_ok 0 ?m" using m2 by (simp add: seconds_ok_def)
  from ref_loop_invariant [OF this, of ref_id] assms(2)
  have r1: "seconds_ok (length ref_id) ?r" and r2: "map (\<lambda>e. fst (snd e)) ?r = map (\<lambda>e. fst (snd e)) ?m"
    by simp_all
  have f: "distinct (map fst (pairings_of ?r))"
  proof -
    have "distinct (map fst (map snd ?r))" using m1 r2 by (simp add: comp_def)
    then show ?thesis unfolding pairings_of_def by (rule distinct_map_filter)
  qed
  have "map snd (pairings_of ?r) = filter (\<lambda>b. 0 \<le> b) (map (\<lambda>e. snd (snd e)) ?r)"
    unfolding pairings_of_def by (rule snd_pairings)
  then have s: "distinct (map snd (pairings_of ?r))"
    using r1 by (simp add: seconds_ok_def)
  show "sorted_wrt (<) (map fst (intersect_features mat_id ref_id))"
    unfolding intersect_features_def
    by (rule sorted_distinct_fst) (simp_all add: distinct_map_sort f)
  show "distinct (map snd (intersect_features mat_id ref_id))"
    unfolding intersect_features_def by (simp add: distinct_map_sort s)
qed

lemma intersect_features_disjoint:
  assumes "set mat_id \<inter> set ref_id = {}"
  shows "intersect_features mat_id ref_id = []"
proof -
  let ?m = "mat_loop 0 mat_id []"
  have "fst ` set ?m = set mat_id" by (simp add: mat_loop_keys)
  then have "ref_loop 0 ref_id ?m = ?m" using assms by (intro ref_loop_no_match) auto
  moreover have "\<forall>e\<in>set ?m. snd (snd e) = - 1" by (rule mat_loop_seconds) simp
  then have "pairings_of ?m = []" by (auto simp: pairings_of_def filter_empty_conv)
  ultimately show ?thesis by (simp add: intersect_features_def)
qed

section \<open>Claims about the intersection of identifiers\<close>

text \<open>
  Claim C1. When an identifier is duplicated, only its first occurrence in each input
  takes part in the intersection; for the test identifiers \<open>[A, A, B]\<close> and the
  reference identifiers \<open>[A, B]\<close> the result is \<open>[(0, 0), (2, 1)]\<close>.
  \<open>intersect_genes\<close> does this (lemma \<open>intersect_genes_first_occurrence\<close>, and
  \<open>intersect_genes_example\<close> for the example). \<open>intersect_features\<close> does not: each
  assignment \<open>intersection[mat_id[i]] = ...\<close> and \<open>(it->second).second = i\<close>
  overwrites what an earlier occurrence stored, so the last occurrence of an identifier
  stays. On the example it pairs test row 1, not test row 0, with reference row 0.
\<close>

theorem intersect_features_keeps_last_occurrence:
  "intersect_features [''A'', ''A'', ''B''] [''A'', ''B''] = [(1, 0), (2, 1)]
   \<and> intersect_features [''A''] [''A'', ''A''] = [(0, 1)]"
  by (simp add: intersect_features_def pairings_of_def size_t_to_int_def)

lemma intersect_genes_example:
  "intersect_genes [''A'', ''A'', ''B''] [''A'', ''B''] = [(0, 0), (2, 1)]
   \<and> intersect_genes [''A''] [''A'', ''A''] = [(0, 0)]"
  by (simp add: intersect_genes_def)

text \<open>
  Claim C7. For every pair of identifier arrays the result of the intersection is in
  ascending order of the test row (the first components increase strictly), no test row
  and no reference row occurs in two pairs, and two arrays with no common identifier give
  the empty result. This holds for \<open>intersect_genes\<close>, and for \<open>intersect_features\<close>
  on arrays whose lengths fit the \<open>int\<close> in which it stores the rows.
\<close>

theorem intersection_ordered_and_unique:
  "sorted_wrt (<) (map fst (intersect_genes test_id ref_id))
   \<and> distinct (map fst (intersect_genes test_id ref_id))
   \<and> distinct (map snd (intersect_genes test_id ref_id))
   \<and> (set test_id \<inter> set ref_id = {} \<longrightarrow> intersect_genes test_id ref_id = [])
   \<and> (length test_id < 2 ^ 31 \<and> length ref_id < 2 ^ 31 \<longrightarrow>
        sorted_wrt (<) (map fst (intersect_features test_id ref_id))
        \<and> distinct (map fst (intersect_features test_id ref_id))
        \<and> distinct (map snd (intersect_features test_id ref_id)))
   \<and> (set test_id \<inter> set ref_id = {} \<longrightarrow> intersect_features test_id ref_id = [])"
proof -
  have o: "one_to_one (ref_found_loop 0 ref_id Map.empty)"
    by (rule ref_found_loop_one_to_one) (simp_all add: one_to_one_def)
  have g1: "sorted_wrt (<) (map fst (intersect_genes test_id ref_id))"
    unfolding intersect_genes_def by (rule test_loop_fst_sorted) simp_all
  then have g2: "distinct (map fst (intersect_genes test_id ref_id))"
    by (simp add: strict_sorted_iff)
  have g3: "distinct (map snd (intersect_genes test_id ref_id))"
    unfolding intersect_genes_def by (rule test_loop_snd_distinct [OF o]) simp_all
  have g4: "set test_id \<inter> set ref_id = {} \<longrightarrow> intersect_genes test_id ref_id = []"
    unfolding intersect_genes_def by (simp add: test_loop_no_match ref_found_loop_dom)
  have f: "sorted_wrt (<) (map fst (intersect_features test_id ref_id))
        \<and> distinct (map fst (intersect_features test_id ref_id))
        \<and> distinct (map snd (intersect_features test_id ref_id))"
    if "length test_id < 2 ^ 31" and "length ref_id < 2 ^ 31"
  proof -
    have f1: "sorted_wrt (<) (map fst (intersect_features test_id ref_id))"
      using that by (rule intersect_features_ordered(1))
    then have "distinct (map fst (intersect_features test_id ref_id))"
      by (simp add: strict_sorted_iff)
    with f1 intersect_features_ordered(2) [OF that] show ?thesis by simp
  qed
  have f4: "set test_id \<inter> set ref_id = {} \<longrightarrow> intersect_features test_id ref_id = []"
    by (simp add: intersect_features_disjoint)
  show ?thesis using g1 g2 g3 g4 f f4 by blast
qed

theorem intersection_ordered_and_unique_witness:
  "length [''A'', ''A'', ''B''] < (2 :: nat) ^ 31 \<and> length [''A'', ''B''] < (2 :: nat) ^ 31
   \<and> sorted_wrt (<) (map fst (intersect_genes [''A'', ''A'', ''B''] [''A'', ''B'']))
   \<and> distinct (map snd (intersect_genes [''A'', ''A'', ''B''] [''A'', ''B'']))
   \<and> sorted_wrt (<) (map fst (intersect_features [''A'', ''A'', ''B''] [''A'', ''B'']))
   \<and> distinct (map snd (intersect_features [''A'', ''A'', ''B''] [''A'', ''B'']))
   \<and> set [''C''] \<inter> set [''D'', ''E''] = {}
   \<and> intersect_genes [''C''] [''D'', ''E''] = []
   \<and> intersect_features [''C''] [''D'', ''E''] = []"
  using intersection_ordered_and_unique [of "[''A'', ''A'', ''B'']" "[''A'', ''B'']"]
    intersection_ordered_and_unique [of "[''C'']" "[''D'', ''E'']"]
  by simp

section \<open>Properties of the traversal of the marker lists\<close>

lemma off_diagonal_row_member:
  "c \<in> set (off_diagonal_row i j cs) \<longleftrightarrow> (\<exists>b<length cs. j + b \<noteq> i \<and> c = cs ! b)"
proof (induction cs arbitrary: j)
  case Nil
  then show ?case by simp
next
  case (Cons x xs)
  show ?case using Cons.IH [of "Suc j"] by (auto simp: Ex_less_Suc2)
qed

lemma off_diagonal_member:
  "c \<in> set (off_diagonal i rows) \<longleftrightarrow>
     (\<exists>a<length rows. \<exists>b<length (rows ! a). b \<noteq> i + a \<and> c = rows ! a ! b)"
proof (induction rows arbitrary: i)
  case Nil
  then show ?case by simp
next
  case (Cons row rows)
  show ?case by (auto simp: Cons.IH Ex_less_Suc2 off_diagonal_row_member)
qed

lemma length_apply_row [simp]: "length (apply_row f i j cs) = length cs"
  by (induction cs arbitrary: j) auto

lemma length_apply_rows [simp]: "length (apply_rows f i rows) = length rows"
  by (induction rows arbitrary: i) auto

lemma nth_apply_row:
  "b < length cs \<Longrightarrow> apply_row f i j cs ! b = (if i = j + b then cs ! b else f (cs ! b))"
proof (induction cs arbitrary: j b)
  case Nil
  then show ?case by simp
next
  case (Cons x xs)
  then show ?case by (cases b) auto
qed

lemma nth_apply_rows:
  "a < length rows \<Longrightarrow> apply_rows f i rows ! a = apply_row f (i + a) 0 (rows ! a)"
proof (induction rows arbitrary: i a)
  case Nil
  then show ?case by simp
next
  case (Cons x xs)
  then show ?case by (cases a) auto
qed

lemma off_diagonal_row_apply:
  "off_diagonal_row i j (apply_row f i j cs) = map f (off_diagonal_row i j cs)"
  by (induction cs arbitrary: j) auto

lemma off_diagonal_apply:
  "off_diagonal i (apply_rows f i rows) = map f (off_diagonal i rows)"
  by (induction rows arbitrary: i) (auto simp: off_diagonal_row_apply)

lemma row_loop_pure:
  "(\<And>s c. c \<in> set (off_diagonal_row i j cs) \<Longrightarrow> body s c = Inr (f c, g c s))
    \<Longrightarrow> row_loop body i j cs s = Inr (apply_row f i j cs, fold g (off_diagonal_row i j cs) s)"
proof (induction cs arbitrary: j s)
  case Nil
  then show ?case by simp
next
  case (Cons x xs)
  have ih: "row_loop body i (Suc j) xs s' =
      Inr (apply_row f i (Suc j) xs, fold g (off_diagonal_row i (Suc j) xs) s')" for s'
  proof (rule Cons.IH)
    fix s c assume "c \<in> set (off_diagonal_row i (Suc j) xs)"
    then have "c \<in> set (off_diagonal_row i j (x # xs))" by auto
    then show "body s c = Inr (f c, g c s)" by (rule Cons.prems)
  qed
  show ?case
  proof (cases "i = j")
    case True
    then show ?thesis using ih [of s] by simp
  next
    case False
    then have "body s x = Inr (f x, g x s)" by (simp add: Cons.prems)
    then show ?thesis using False by (simp add: ih)
  qed
qed

lemma rows_loop_pure:
  "(\<And>s c. c \<in> set (off_diagonal i rows) \<Longrightarrow> body s c = Inr (f c, g c s))
    \<Longrightarrow> rows_loop body i rows s = Inr (apply_rows f i rows, fold g (off_diagonal i rows) s)"
proof (induction rows arbitrary: i s)
  case Nil
  then show ?case by simp
next
  case (Cons row rows)
  have r: "row_loop body i 0 row s' =
      Inr (apply_row f i 0 row, fold g (off_diagonal_row i 0 row) s')" for s'
    by (rule row_loop_pure) (simp add: Cons.prems)
  have ih: "rows_loop body (Suc i) rows s' =
      Inr (apply_rows f (Suc i) rows, fold g (off_diagonal (Suc i) rows) s')" for s'
    by (rule Cons.IH) (simp add: Cons.prems)
  show ?case by (simp add: r ih)
qed

lemma row_loop_failing:
  "(\<And>s c. body s c = Inl e)
    \<Longrightarrow> row_loop body i j cs s =
        (if off_diagonal_row i j cs = [] then Inr (cs, s) else Inl e)"
  by (induction cs arbitrary: j) auto

lemma rows_loop_failing:
  "(\<And>s c. body s c = Inl e)
    \<Longrightarrow> rows_loop body i rows s = (if off_diagonal i rows = [] then Inr (rows, s) else Inl e)"
  by (induction rows arbitrary: i) (auto simp: row_loop_failing)

lemma fold_union: "fold (\<lambda>c s. s \<union> h c) cs s = s \<union> \<Union> (h ` set cs)"
  by (induction cs arbitrary: s) auto

section \<open>Properties of \<open>subset_markers\<close>\<close>

lemma available_of_eq: "available_of intersection = snd ` set intersection"
proof -
  have "fold (\<lambda>entry. insert (snd entry)) xs A = A \<union> snd ` set xs" for xs :: Intersection and A
    by (induction xs arbitrary: A) auto
  then show ?thesis by (simp add: available_of_def)
qed

lemma keep_loop_eq:
  "keep_loop available n current replacement all_markers =
     (replacement @ take (n - length replacement) (filter (\<lambda>g. g \<in> available) current),
      all_markers \<union> set (take (n - length replacement) (filter (\<lambda>g. g \<in> available) current)))"
proof (induction current arbitrary: replacement all_markers)
  case Nil
  then show ?case by simp
next
  case (Cons g rest)
  show ?case
  proof (cases "length replacement < n")
    case True
    then have d: "n - length replacement = Suc (n - Suc (length replacement))"
      by simp
    show ?thesis using True by (simp add: Cons.IH d)
  next
    case False
    then show ?thesis by simp
  qed
qed

lemma retain_top_nonneg:
  "0 \<le> top_n \<Longrightarrow> retain_top available top_n all_markers current =
     Inr (take (int_to_size_t top_n) (filter (\<lambda>g. g \<in> available) current),
          all_markers \<union> set (take (int_to_size_t top_n) (filter (\<lambda>g. g \<in> available) current)))"
  by (simp add: retain_top_def keep_loop_eq)

lemma retain_top_negative:
  "top_n < 0 \<Longrightarrow> retain_top available top_n all_markers current = Inl LengthError"
  by (simp add: retain_top_def)

lemma int_to_size_t_nat: "0 \<le> k \<Longrightarrow> k < 2 ^ 64 \<Longrightarrow> int_to_size_t k = nat k"
  by (simp add: int_to_size_t_def)

lemma compact_spec_kept:
  "fst (compact_spec all_markers counter ps mapping) = filter (\<lambda>p. snd p \<in> all_markers) ps"
  by (induction ps arbitrary: counter mapping) auto

lemma compact_spec_dom:
  "dom (snd (compact_spec all_markers counter ps mapping)) =
     dom mapping \<union> snd ` set (filter (\<lambda>p. snd p \<in> all_markers) ps)"
proof (induction ps arbitrary: counter mapping)
  case Nil
  then show ?case by simp
next
  case (Cons p ps)
  show ?case
  proof (cases "snd p \<in> all_markers")
    case True
    have "dom (snd (compact_spec all_markers counter (p # ps) mapping)) =
        dom (snd (compact_spec all_markers (Suc counter) ps (mapping(snd p \<mapsto> size_t_to_int counter))))"
      using True by simp
    then show ?thesis using True by (auto simp: Cons.IH)
  next
    case False
    then show ?thesis by (simp add: Cons.IH)
  qed
qed

lemma compact_spec_value:
  "snd (compact_spec all_markers counter ps mapping) g = Some v \<Longrightarrow>
     mapping g = Some v \<or>
     (\<exists>n<length (filter (\<lambda>p. snd p \<in> all_markers) ps).
        v = size_t_to_int (counter + n) \<and> snd (filter (\<lambda>p. snd p \<in> all_markers) ps ! n) = g)"
proof (induction ps arbitrary: counter mapping)
  case Nil
  then show ?case by simp
next
  case (Cons p ps)
  let ?k = "filter (\<lambda>p. snd p \<in> all_markers) ps"
  show ?case
  proof (cases "snd p \<in> all_markers")
    case False
    then show ?thesis using Cons.IH [of counter mapping] Cons.prems by simp
  next
    case True
    let ?m = "mapping(snd p \<mapsto> size_t_to_int counter)"
    have "snd (compact_spec all_markers (Suc counter) ps ?m) g = Some v"
      using Cons.prems True by simp
    from Cons.IH [OF this]
    have "?m g = Some v \<or> (\<exists>n<length ?k. v = size_t_to_int (Suc counter + n) \<and> snd (?k ! n) = g)" .
    then show ?thesis
    proof
      assume "?m g = Some v"
      then have "mapping g = Some v \<or> (v = size_t_to_int (counter + 0) \<and> snd ((p # ?k) ! 0) = g)"
        by (auto split: if_splits)
      then show ?thesis using True by auto
    next
      assume "\<exists>n<length ?k. v = size_t_to_int (Suc counter + n) \<and> snd (?k ! n) = g"
      then obtain n where "n < length ?k" "v = size_t_to_int (Suc counter + n)" "snd (?k ! n) = g"
        by blast
      then have "Suc n < length (p # ?k) \<and> v = size_t_to_int (counter + Suc n)
          \<and> snd ((p # ?k) ! Suc n) = g"
        by simp
      then show ?thesis using True by auto
    qed
  qed
qed

lemma reindex_loop_defined:
  "set current \<subseteq> dom mapping \<Longrightarrow>
     reindex_loop mapping current = Inr (map (\<lambda>g. the (mapping g)) current)"
  by (induction current) auto

lemma reindex_defined:
  "set current \<subseteq> dom mapping \<Longrightarrow>
     reindex mapping s current = Inr (map (\<lambda>g. the (mapping g)) current, s)"
  by (simp add: reindex_def reindex_loop_defined)

lemma compact_loop_spec:
  "counter \<le> i \<Longrightarrow> i \<le> length intersection \<Longrightarrow>
   compact_loop all_markers i counter intersection mapping =
     (take counter intersection @ fst (compact_spec all_markers counter (drop i intersection) mapping),
      snd (compact_spec all_markers counter (drop i intersection) mapping))"
proof (induction all_markers i counter intersection mapping rule: compact_loop.induct)
  case (1 all_markers i counter intersection mapping)
  show ?case
  proof (cases "i < length intersection")
    case False
    then have "drop i intersection = []" by simp
    then show ?thesis using False by (simp add: compact_loop.simps [of all_markers i])
  next
    case True
    then have d: "drop i intersection = intersection ! i # drop (Suc i) intersection"
      by (simp add: Cons_nth_drop_Suc)
    show ?thesis
    proof (cases "snd (intersection ! i) \<in> all_markers")
      case False
      have "compact_loop all_markers (Suc i) counter intersection mapping =
        (take counter intersection @ fst (compact_spec all_markers counter (drop (Suc i) intersection) mapping),
         snd (compact_spec all_markers counter (drop (Suc i) intersection) mapping))"
        by (rule "1.IH"(2) [OF True False]) (use "1.prems" True in simp_all)
      then show ?thesis
        using True False by (simp add: compact_loop.simps [of all_markers i] d)
    next
      case in_markers: True
      let ?x = "intersection[counter := intersection ! i]"
      have same: "?x ! i = intersection ! i"
        using True "1.prems" by (cases "counter = i") simp_all
      let ?m = "mapping(snd (intersection ! i) \<mapsto> size_t_to_int counter)"
      have ih: "compact_loop all_markers (Suc i) (Suc counter) ?x ?m =
        (take (Suc counter) ?x @ fst (compact_spec all_markers (Suc counter) (drop (Suc i) ?x) ?m),
         snd (compact_spec all_markers (Suc counter) (drop (Suc i) ?x) ?m))"
        by (rule "1.IH"(1) [OF True in_markers refl refl, unfolded same])
           (use "1.prems" True in simp_all)
      have dr: "drop (Suc i) ?x = drop (Suc i) intersection"
        using "1.prems" by simp
      have tk: "take (Suc counter) ?x = take counter intersection @ [intersection ! i]"
        using "1.prems" True by (simp add: take_Suc_conv_app_nth)
      show ?thesis
        using True in_markers
        by (simp add: compact_loop.simps [of all_markers i] d Let_def same ih dr tk)
    qed
  qed
qed

lemma row_loop_no_entries:
  "off_diagonal_row i j cs = [] \<Longrightarrow> row_loop body i j cs s = Inr (cs, s)"
proof (induction cs arbitrary: j)
  case Nil
  then show ?case by simp
next
  case (Cons c cs)
  then have "i = j" and "off_diagonal_row i (Suc j) cs = []"
    by (auto split: if_splits)
  then show ?case using Cons.IH [of "Suc j"] by simp
qed

lemma rows_loop_no_entries:
  "off_diagonal i rows = [] \<Longrightarrow> rows_loop body i rows s = Inr (rows, s)"
  by (induction rows arbitrary: i) (auto simp: row_loop_no_entries)

lemma nth_nth_apply_rows:
  "a < length rows \<Longrightarrow> b < length (rows ! a) \<Longrightarrow>
     apply_rows f 0 rows ! a ! b = (if a = b then rows ! a ! b else f (rows ! a ! b))"
  by (simp add: nth_apply_rows nth_apply_row)

lemma length_nth_apply_rows:
  "a < length rows \<Longrightarrow> length (apply_rows f i rows ! a) = length (rows ! a)"
  by (simp add: nth_apply_rows)

lemma retain_phase_nonneg:
  assumes "0 \<le> top_n"
  shows "retain_phase intersection markers top_n =
     Inr (apply_rows (\<lambda>c. take (int_to_size_t top_n) (filter (\<lambda>g. g \<in> snd ` set intersection) c)) 0 markers,
          \<Union> ((\<lambda>c. set (take (int_to_size_t top_n) (filter (\<lambda>g. g \<in> snd ` set intersection) c)))
               ` set (off_diagonal 0 markers)))"
proof -
  let ?f = "\<lambda>c. take (int_to_size_t top_n) (filter (\<lambda>g. g \<in> snd ` set intersection) c)"
  have "rows_loop (retain_top (available_of intersection) top_n) 0 markers {} =
      Inr (apply_rows ?f 0 markers, fold (\<lambda>c s. s \<union> set (?f c)) (off_diagonal 0 markers) {})"
    by (rule rows_loop_pure) (simp add: retain_top_nonneg [OF assms] available_of_eq)
  then show ?thesis by (simp add: retain_phase_def fold_union)
qed

lemma retain_phase_negative:
  assumes "top_n < 0"
  shows "retain_phase intersection markers top_n =
     (if off_diagonal 0 markers = [] then Inr (markers, {}) else Inl LengthError)"
  unfolding retain_phase_def
  by (rule rows_loop_failing) (simp add: retain_top_negative [OF assms])

lemma compact_loop_start:
  "compact_loop all_markers 0 0 intersection mapping =
     (filter (\<lambda>p. snd p \<in> all_markers) intersection,
      snd (compact_spec all_markers 0 intersection mapping))"
  by (simp add: compact_loop_spec compact_spec_kept)

lemma subset_markers_nonneg:
  fixes intersection :: Intersection and markers :: Markers and top_n :: int
  assumes "0 \<le> top_n"
  defines "f \<equiv> \<lambda>c. take (int_to_size_t top_n) (filter (\<lambda>g. g \<in> snd ` set intersection) c)"
  defines "all_markers \<equiv> \<Union> ((\<lambda>c. set (f c)) ` set (off_diagonal 0 markers))"
  defines "mapping \<equiv> snd (compact_spec all_markers 0 intersection Map.empty)"
  shows "subset_markers intersection markers top_n =
     Inr (filter (\<lambda>p. snd p \<in> all_markers) intersection,
          apply_rows (map (\<lambda>g. the (mapping g))) 0 (apply_rows f 0 markers))"
proof -
  have p1: "retain_phase intersection markers top_n = Inr (apply_rows f 0 markers, all_markers)"
    unfolding f_def all_markers_def by (rule retain_phase_nonneg [OF assms(1)])
  have d: "dom mapping = snd ` set (filter (\<lambda>p. snd p \<in> all_markers) intersection)"
    unfolding mapping_def by (simp add: compact_spec_dom)
  have p3: "rows_loop (reindex mapping) 0 (apply_rows f 0 markers) () =
      Inr (apply_rows (map (\<lambda>g. the (mapping g))) 0 (apply_rows f 0 markers),
           fold (\<lambda>c s. s) (off_diagonal 0 (apply_rows f 0 markers)) ())"
  proof (rule rows_loop_pure)
    fix s :: unit and c
    assume "c \<in> set (off_diagonal 0 (apply_rows f 0 markers))"
    then obtain c0 where c0: "c0 \<in> set (off_diagonal 0 markers)" "c = f c0"
      by (auto simp: off_diagonal_apply)
    have "set c \<subseteq> dom mapping"
    proof
      fix g assume g: "g \<in> set c"
      then have "g \<in> all_markers" using c0 by (auto simp: all_markers_def)
      moreover have "g \<in> snd ` set intersection"
        using g c0(2) by (auto simp: f_def dest: in_set_takeD)
      ultimately show "g \<in> dom mapping" unfolding d by auto
    qed
    then show "reindex mapping s c = Inr (map (\<lambda>g. the (mapping g)) c, s)"
      by (rule reindex_defined)
  qed
  show ?thesis
    by (simp add: subset_markers_def p1 compact_loop_start mapping_def [symmetric] p3)
qed

lemma subset_markers_negative:
  assumes "top_n < 0"
  shows "subset_markers intersection markers top_n =
     (if off_diagonal 0 markers = [] then Inr ([], markers) else Inl LengthError)"
  by (simp add: subset_markers_def retain_phase_negative [OF assms] compact_loop_start
      rows_loop_no_entries)

lemma off_diagonal_empty:
  "off_diagonal 0 rows = [] \<Longrightarrow> a < length rows \<Longrightarrow> b < length (rows ! a) \<Longrightarrow> a = b"
  using off_diagonal_member [of "rows ! a ! b" 0 rows] by auto

lemma kept_gene_mapped:
  fixes intersection :: Intersection and markers :: Markers and n :: nat
  defines "f \<equiv> \<lambda>c. take n (filter (\<lambda>g. g \<in> snd ` set intersection) c)"
  defines "all_markers \<equiv> \<Union> ((\<lambda>c. set (f c)) ` set (off_diagonal 0 markers))"
  defines "kept \<equiv> filter (\<lambda>p. snd p \<in> all_markers) intersection"
  assumes "c \<in> set (off_diagonal 0 markers)" and "g \<in> set (f c)"
  shows "\<exists>m<length kept.
           snd (compact_spec all_markers 0 intersection Map.empty) g = Some (size_t_to_int m)
           \<and> snd (kept ! m) = g"
proof -
  have "g \<in> all_markers" using assms(4,5) by (auto simp: all_markers_def)
  moreover have "g \<in> snd ` set intersection"
    using assms(5) by (auto simp: f_def dest: in_set_takeD)
  ultimately have "g \<in> dom (snd (compact_spec all_markers 0 intersection Map.empty))"
    by (auto simp: compact_spec_dom)
  then obtain v where v: "snd (compact_spec all_markers 0 intersection Map.empty) g = Some v"
    by blast
  from compact_spec_value [OF this] show ?thesis using v by (auto simp: kept_def)
qed

lemma union_off_diagonal:
  "\<Union> (h ` set (off_diagonal 0 rows)) =
     {g. \<exists>i<length rows. \<exists>j<length (rows ! i). i \<noteq> j \<and> g \<in> h (rows ! i ! j)}"
proof -
  have iff: "(\<exists>c\<in>set (off_diagonal 0 rows). g \<in> h c) \<longleftrightarrow>
      (\<exists>i<length rows. \<exists>j<length (rows ! i). i \<noteq> j \<and> g \<in> h (rows ! i ! j))" for g
  proof
    assume "\<exists>c\<in>set (off_diagonal 0 rows). g \<in> h c"
    then obtain c where c: "c \<in> set (off_diagonal 0 rows)" "g \<in> h c" by blast
    then obtain a b where "a < length rows" "b < length (rows ! a)" "b \<noteq> a" "c = rows ! a ! b"
      using off_diagonal_member [of c 0 rows] by auto
    then show "\<exists>i<length rows. \<exists>j<length (rows ! i). i \<noteq> j \<and> g \<in> h (rows ! i ! j)"
      using c(2) by auto
  next
    assume "\<exists>i<length rows. \<exists>j<length (rows ! i). i \<noteq> j \<and> g \<in> h (rows ! i ! j)"
    then obtain i j where ij: "i < length rows" "j < length (rows ! i)" "i \<noteq> j" "g \<in> h (rows ! i ! j)"
      by blast
    then have "rows ! i ! j \<in> set (off_diagonal 0 rows)"
      using off_diagonal_member [of "rows ! i ! j" 0 rows] by auto
    then show "\<exists>c\<in>set (off_diagonal 0 rows). g \<in> h c" using ij(4) by blast
  qed
  show ?thesis unfolding set_eq_iff UN_iff mem_Collect_eq by (rule allI) (rule iff)
qed

lemma truncate_top_eq:
  "truncate_top top_n available current =
     Inr (take (min (length current) (int_to_size_t top_n)) current,
          available \<union> set (take (min (length current) (int_to_size_t top_n)) current))"
  by (simp add: truncate_top_def Let_def)

lemma mapping_loop_dom: "dom (mapping_loop i gs mapping) = dom mapping \<union> set gs"
  by (induction gs arbitrary: i mapping) auto

lemma mapping_loop_old:
  "g \<notin> set gs \<Longrightarrow> mapping_loop i gs mapping g = mapping g"
  by (induction gs arbitrary: i mapping) auto

lemma mapping_loop_nth:
  "distinct gs \<Longrightarrow> n < length gs \<Longrightarrow>
     mapping_loop i gs mapping (gs ! n) = Some (size_t_to_int (i + n))"
proof (induction gs arbitrary: i mapping n)
  case Nil
  then show ?case by simp
next
  case (Cons g gs)
  show ?case
  proof (cases n)
    case 0
    then show ?thesis using Cons.prems by (simp add: mapping_loop_old)
  next
    case (Suc n')
    then show ?thesis using Cons.prems Cons.IH [of n' "Suc i"] by simp
  qed
qed

lemma truncate_phase:
  "rows_loop (truncate_top top_n) 0 markers {} =
     Inr (apply_rows (\<lambda>c. take (min (length c) (int_to_size_t top_n)) c) 0 markers,
          \<Union> ((\<lambda>c. set (take (min (length c) (int_to_size_t top_n)) c)) ` set (off_diagonal 0 markers)))"
proof -
  let ?t = "\<lambda>c :: int list. take (min (length c) (int_to_size_t top_n)) c"
  have "rows_loop (truncate_top top_n) 0 markers {} =
      Inr (apply_rows ?t 0 markers, fold (\<lambda>c s. s \<union> set (?t c)) (off_diagonal 0 markers) {})"
    by (rule rows_loop_pure) (simp add: truncate_top_eq)
  then show ?thesis by (simp add: fold_union)
qed

lemma subset_markers_identical_eq:
  fixes markers :: Markers and top_n :: int
  defines "t \<equiv> \<lambda>c :: int list. take (min (length c) (int_to_size_t top_n)) c"
  defines "sub \<equiv> sorted_list_of_set (\<Union> ((\<lambda>c. set (t c)) ` set (off_diagonal 0 markers)))"
  defines "mapping \<equiv> mapping_loop 0 sub Map.empty"
  shows "subset_markers_identical markers top_n =
     Inr (sub, apply_rows (map (\<lambda>g. the (mapping g))) 0 (apply_rows t 0 markers))"
    and "set sub = \<Union> ((\<lambda>c. set (t c)) ` set (off_diagonal 0 markers))"
    and "distinct sub"
proof -
  have fin: "finite (\<Union> ((\<lambda>c. set (t c)) ` set (off_diagonal 0 markers)))" by simp
  show s: "set sub = \<Union> ((\<lambda>c. set (t c)) ` set (off_diagonal 0 markers))"
    unfolding sub_def using fin by (rule set_sorted_list_of_set)
  show "distinct sub" unfolding sub_def by (rule distinct_sorted_list_of_set)
  have p1: "rows_loop (truncate_top top_n) 0 markers {} =
      Inr (apply_rows t 0 markers, \<Union> ((\<lambda>c. set (t c)) ` set (off_diagonal 0 markers)))"
    unfolding t_def by (rule truncate_phase)
  have p3: "rows_loop (reindex mapping) 0 (apply_rows t 0 markers) () =
      Inr (apply_rows (map (\<lambda>g. the (mapping g))) 0 (apply_rows t 0 markers),
           fold (\<lambda>c s. s) (off_diagonal 0 (apply_rows t 0 markers)) ())"
  proof (rule rows_loop_pure)
    fix s :: unit and c
    assume "c \<in> set (off_diagonal 0 (apply_rows t 0 markers))"
    then obtain c0 where c0: "c0 \<in> set (off_diagonal 0 markers)" "c = t c0"
      by (auto simp: off_diagonal_apply)
    then have "set c \<subseteq> set sub" unfolding s by blast
    then have "set c \<subseteq> dom mapping" by (simp add: mapping_def mapping_loop_dom)
    then show "reindex mapping s c = Inr (map (\<lambda>g. the (mapping g)) c, s)"
      by (rule reindex_defined)
  qed
  show "subset_markers_identical markers top_n =
     Inr (sub, apply_rows (map (\<lambda>g. the (mapping g))) 0 (apply_rows t 0 markers))"
    by (simp add: subset_markers_identical_def p1 Let_def sub_def [symmetric]
        mapping_def [symmetric] p3)
qed

lemma subset_markers_cases:
  assumes "subset_markers intersection markers top_n = Inr (intersection', markers')"
  shows "(top_n < 0 \<and> off_diagonal 0 markers = [] \<and> intersection' = [] \<and> markers' = markers
          \<and> retain_phase intersection markers top_n = Inr (markers, {}))
       \<or> (0 \<le> top_n \<and>
           (\<exists>f all_markers mapping.
              f = (\<lambda>c. take (int_to_size_t top_n) (filter (\<lambda>g. g \<in> snd ` set intersection) c)) \<and>
              all_markers = \<Union> ((\<lambda>c. set (f c)) ` set (off_diagonal 0 markers)) \<and>
              mapping = snd (compact_spec all_markers 0 intersection Map.empty) \<and>
              retain_phase intersection markers top_n = Inr (apply_rows f 0 markers, all_markers) \<and>
              intersection' = filter (\<lambda>p. snd p \<in> all_markers) intersection \<and>
              markers' = apply_rows (map (\<lambda>g. the (mapping g))) 0 (apply_rows f 0 markers)))"
proof (cases "top_n < 0")
  case True
  then show ?thesis
    using assms by (auto simp: subset_markers_negative retain_phase_negative split: if_splits)
next
  case False
  then have t: "0 \<le> top_n" by simp
  show ?thesis
    using assms t unfolding subset_markers_nonneg [OF t] retain_phase_nonneg [OF t] by simp
qed


section \<open>Claims about \<open>subset_markers\<close>\<close>

text \<open>The definitions that a concrete call unfolds.\<close>

lemmas eval_subset_markers =
  subset_markers_def retain_phase_def retain_top_def available_of_def int_to_size_t_def
  reindex_def size_t_to_int_def compact_loop.simps

lemmas eval_subset_markers_identical =
  subset_markers_identical_def truncate_top_def int_to_size_t_def reindex_def size_t_to_int_def

text \<open>
  Claim C5. \<open>subset_markers(intersection, markers, top)\<close> performs a filtered top-k:
  for every ordered pair of labels \<open>i \<noteq> j\<close> it walks \<open>markers[i][j]\<close> in its
  order, keeps a gene only if it is the second element of an entry of the intersection,
  and stops when \<open>top\<close> genes are kept. So the list before the reindexing (the result
  of the first phase) is the first \<open>top\<close> elements of the filtered list, and the list
  that the function returns has this length and, read back through the returned
  intersection (an index \<open>m\<close> stands for the second element of entry \<open>m\<close>), is this
  list again. \<open>top\<close> is an \<open>int\<close> and not negative; the indices are stored in
  \<open>int\<close>, so reading back is stated for an intersection of at most \<open>2^31\<close> entries.
  The first input of the witness is the example of the claim: \<open>top = 2\<close>, the list
  \<open>[5, 7, 9]\<close> for the pair \<open>(0, 1)\<close> and the available genes \<open>2, 5, 7\<close> give
  \<open>[5, 7]\<close>. On the second input, \<open>[9, 5, 7, 2]\<close>, cutting before filtering would
  give \<open>[5]\<close>.
\<close>

theorem filtered_top_k:
  "0 \<le> top_n \<and> top_n < 2 ^ 31 \<longrightarrow>
     (\<exists>intersection' markers' markers1 all_markers.
        subset_markers intersection markers top_n = Inr (intersection', markers') \<and>
        retain_phase intersection markers top_n = Inr (markers1, all_markers) \<and>
        length markers' = length markers \<and> length markers1 = length markers \<and>
        (\<forall>i<length markers.
           length (markers' ! i) = length (markers ! i) \<and>
           length (markers1 ! i) = length (markers ! i) \<and>
           (\<forall>j<length (markers ! i). i \<noteq> j \<longrightarrow>
              markers1 ! i ! j =
                take (nat top_n) (filter (\<lambda>g. g \<in> snd ` set intersection) (markers ! i ! j)) \<and>
              length (markers' ! i ! j) =
                length (take (nat top_n)
                  (filter (\<lambda>g. g \<in> snd ` set intersection) (markers ! i ! j))) \<and>
              (length intersection \<le> 2 ^ 31 \<longrightarrow>
                 map (\<lambda>m. snd (intersection' ! nat m)) (markers' ! i ! j) =
                   take (nat top_n)
                     (filter (\<lambda>g. g \<in> snd ` set intersection) (markers ! i ! j))))))"
proof (intro impI)
  assume t: "0 \<le> top_n \<and> top_n < 2 ^ 31"
  then have t0: "0 \<le> top_n" and n: "int_to_size_t top_n = nat top_n"
    by (simp_all add: int_to_size_t_nat)
  let ?f = "\<lambda>c. take (nat top_n) (filter (\<lambda>g. g \<in> snd ` set intersection) c)"
  let ?am = "\<Union> ((\<lambda>c. set (?f c)) ` set (off_diagonal 0 markers))"
  let ?mp = "snd (compact_spec ?am 0 intersection Map.empty)"
  let ?kept = "filter (\<lambda>p. snd p \<in> ?am) intersection"
  let ?m1 = "apply_rows ?f 0 markers"
  let ?m' = "apply_rows (map (\<lambda>g. the (?mp g))) 0 ?m1"
  have sm: "subset_markers intersection markers top_n = Inr (?kept, ?m')"
    using subset_markers_nonneg [OF t0, of intersection markers] unfolding n .
  have rp: "retain_phase intersection markers top_n = Inr (?m1, ?am)"
    using retain_phase_nonneg [OF t0, of intersection markers] unfolding n .
  have entry: "?m1 ! i ! j = ?f (markers ! i ! j) \<and>
      length (?m' ! i ! j) = length (?f (markers ! i ! j)) \<and>
      (length intersection \<le> 2 ^ 31 \<longrightarrow>
         map (\<lambda>m. snd (?kept ! nat m)) (?m' ! i ! j) = ?f (markers ! i ! j))"
    if ij: "i < length markers" "j < length (markers ! i)" "i \<noteq> j" for i j
  proof -
    have m1: "?m1 ! i ! j = ?f (markers ! i ! j)"
      using ij by (simp add: nth_nth_apply_rows)
    have m2: "?m' ! i ! j = map (\<lambda>g. the (?mp g)) (?f (markers ! i ! j))"
      using ij by (simp add: nth_nth_apply_rows length_nth_apply_rows)
    have c: "markers ! i ! j \<in> set (off_diagonal 0 markers)"
      using ij off_diagonal_member [of "markers ! i ! j" 0 markers] by auto
    have reads: "snd (?kept ! nat (the (?mp g))) = g"
      if g: "g \<in> set (?f (markers ! i ! j))" and small: "length intersection \<le> 2 ^ 31" for g
    proof -
      from kept_gene_mapped [OF c g]
      obtain m where m: "m < length ?kept" "?mp g = Some (size_t_to_int m)" "snd (?kept ! m) = g"
        by blast
      have "length ?kept \<le> 2 ^ 31"
        using small length_filter_le [of "\<lambda>p. snd p \<in> ?am" intersection] by linarith
      then have "size_t_to_int m = int m" using m(1) by (simp add: size_t_to_int_small)
      then show ?thesis using m by simp
    qed
    have "map (\<lambda>m. snd (?kept ! nat m)) (?m' ! i ! j) = ?f (markers ! i ! j)"
      if small: "length intersection \<le> 2 ^ 31"
      unfolding m2 map_map comp_def using reads [OF _ small] by (simp add: map_idI)
    then show ?thesis using m1 m2 by simp
  qed
  have l1: "length ?m' = length markers" and l2: "length ?m1 = length markers" by simp_all
  have l3: "\<forall>i<length markers. length (?m' ! i) = length (markers ! i)
      \<and> length (?m1 ! i) = length (markers ! i)"
    by (simp add: length_nth_apply_rows)
  show "\<exists>intersection' markers' markers1 all_markers.
        subset_markers intersection markers top_n = Inr (intersection', markers') \<and>
        retain_phase intersection markers top_n = Inr (markers1, all_markers) \<and>
        length markers' = length markers \<and> length markers1 = length markers \<and>
        (\<forall>i<length markers.
           length (markers' ! i) = length (markers ! i) \<and>
           length (markers1 ! i) = length (markers ! i) \<and>
           (\<forall>j<length (markers ! i). i \<noteq> j \<longrightarrow>
              markers1 ! i ! j =
                take (nat top_n) (filter (\<lambda>g. g \<in> snd ` set intersection) (markers ! i ! j)) \<and>
              length (markers' ! i ! j) =
                length (take (nat top_n)
                  (filter (\<lambda>g. g \<in> snd ` set intersection) (markers ! i ! j))) \<and>
              (length intersection \<le> 2 ^ 31 \<longrightarrow>
                 map (\<lambda>m. snd (intersection' ! nat m)) (markers' ! i ! j) =
                   take (nat top_n)
                     (filter (\<lambda>g. g \<in> snd ` set intersection) (markers ! i ! j)))))"
    using sm rp l1 l2 l3 entry by blast
qed

theorem filtered_top_k_witness:
  "(0 :: int) \<le> 2 \<and> (2 :: int) < 2 ^ 31
   \<and> length [(0 :: int, 2 :: int), (1, 5), (2, 7)] \<le> 2 ^ 31
   \<and> subset_markers [(0, 2), (1, 5), (2, 7)] [[[], [5, 7, 9]], [[2, 3], []]] 2
       = Inr ([(0, 2), (1, 5), (2, 7)], [[[], [1, 2]], [[0], []]])
   \<and> retain_phase [(0, 2), (1, 5), (2, 7)] [[[], [5, 7, 9]], [[2, 3], []]] 2
       = Inr ([[[], [5, 7]], [[2], []]], {2, 5, 7})
   \<and> subset_markers [(0, 2), (1, 5), (2, 7)] [[[], [9, 5, 7, 2]], [[2, 3], []]] 2
       = Inr ([(0, 2), (1, 5), (2, 7)], [[[], [1, 2]], [[0], []]])
   \<and> retain_phase [(0, 2), (1, 5), (2, 7)] [[[], [9, 5, 7, 2]], [[2, 3], []]] 2
       = Inr ([[[], [5, 7]], [[2], []]], {2, 5, 7})
   \<and> (0 :: nat) < length [[[], [9, 5, 7, 2]], [[2, 3], [] :: int list]]
   \<and> (1 :: nat) < length ([[[], [9, 5, 7, 2]], [[2, 3], [] :: int list]] ! 0) \<and> (0 :: nat) \<noteq> 1
   \<and> map (\<lambda>m. snd ([(0 :: int, 2 :: int), (1, 5), (2, 7)] ! nat m)) ([[[], [1, 2]], [[0], []]] ! 0 ! 1)
       = [5, 7]
   \<and> take (nat 2) (filter (\<lambda>g. g \<in> snd ` set [(0 :: int, 2 :: int), (1, 5), (2, 7)]) [9, 5, 7, 2])
       = [5, 7]
   \<and> filter (\<lambda>g. g \<in> snd ` set [(0 :: int, 2 :: int), (1, 5), (2, 7)]) (take (nat 2) [9, 5, 7, 2])
       = [5]"
proof -
  have s1: "subset_markers [(0, 2), (1, 5), (2, 7)] [[[], [5, 7, 9]], [[2, 3], []]] 2
       = Inr ([(0, 2), (1, 5), (2, 7)], [[[], [1, 2]], [[0], []]])"
    by (simp add: eval_subset_markers)
  have s2: "subset_markers [(0, 2), (1, 5), (2, 7)] [[[], [9, 5, 7, 2]], [[2, 3], []]] 2
       = Inr ([(0, 2), (1, 5), (2, 7)], [[[], [1, 2]], [[0], []]])"
    by (simp add: eval_subset_markers)
  have p1: "retain_phase [(0, 2), (1, 5), (2, 7)] [[[], [5, 7, 9]], [[2, 3], []]] 2
       = Inr ([[[], [5, 7]], [[2], []]], {2, 5, 7})"
    by (auto simp: eval_subset_markers)
  have p2: "retain_phase [(0, 2), (1, 5), (2, 7)] [[[], [9, 5, 7, 2]], [[2, 3], []]] 2
       = Inr ([[[], [5, 7]], [[2], []]], {2, 5, 7})"
    by (auto simp: eval_subset_markers)
  show ?thesis
    using filtered_top_k [of 2 "[(0, 2), (1, 5), (2, 7)]" "[[[], [5, 7, 9]], [[2, 3], []]]"]
      filtered_top_k [of 2 "[(0, 2), (1, 5), (2, 7)]" "[[[], [9, 5, 7, 2]], [[2, 3], []]]"]
      s1 s2 p1 p2
    by (simp add: nat_numeral)
qed

text \<open>
  Claim C4, as stated, says that after \<open>subset_markers(intersection, markers, top)\<close>
  the second elements of the surviving intersection lie in \<open>0..k-1\<close>, where \<open>k\<close>
  is the number of surviving entries. The compaction copies the entries as they are
  (\<open>intersection[counter] = intersection[i]\<close>), so their second elements stay rows
  of the reference: with the intersection \<open>[(0, 5)]\<close> one entry survives and its
  second element is \<open>5\<close>.
\<close>

theorem compacted_seconds_counterexample:
  "subset_markers [(0, 5)] [[[], [5]], [[5], []]] 1 = Inr ([(0, 5)], [[[], [0]], [[0], []]])
   \<and> \<not> (snd ([(0 :: int, 5 :: int)] ! 0) < int (length [(0 :: int, 5 :: int)]))"
  by (simp add: subset_markers_def retain_phase_def retain_top_def available_of_def
      int_to_size_t_def reindex_def size_t_to_int_def compact_loop.simps)

text \<open>
  Claim C4, amended. After \<open>subset_markers(intersection, markers, top)\<close> returns, the
  surviving intersection is a sub-list of the old one with its entries unchanged, and
  every index in an off-diagonal marker list lies in \<open>0..k-1\<close>, where \<open>k\<close> is the
  number of surviving entries: it is the position, in the surviving intersection, of the
  entry whose second element is the gene that the filtering phase kept at this place.
  The new indices are stored in \<open>int\<close>, so the intersection has at most \<open>2^31\<close>
  entries.
\<close>

theorem marker_indices_address_compacted_intersection:
  assumes "subset_markers intersection markers top_n = Inr (intersection', markers')"
    and "length intersection \<le> 2 ^ 31"
  shows "(\<exists>P. intersection' = filter P intersection) \<and> length markers' = length markers \<and>
    (\<exists>markers1 all_markers.
       retain_phase intersection markers top_n = Inr (markers1, all_markers) \<and>
       (\<forall>i<length markers. length (markers' ! i) = length (markers ! i) \<and>
          (\<forall>j<length (markers ! i). i \<noteq> j \<longrightarrow>
             length (markers' ! i ! j) = length (markers1 ! i ! j) \<and>
             (\<forall>k<length (markers' ! i ! j).
                0 \<le> markers' ! i ! j ! k \<and> markers' ! i ! j ! k < int (length intersection') \<and>
                snd (intersection' ! nat (markers' ! i ! j ! k)) = markers1 ! i ! j ! k))))"
  using subset_markers_cases [OF assms(1)]
proof (elim disjE conjE exE)
  assume e: "off_diagonal 0 markers = []" "intersection' = []" "markers' = markers"
    "retain_phase intersection markers top_n = Inr (markers, {})"
  have "intersection' = filter (\<lambda>p. False) intersection" using e(2) by simp
  then have "\<exists>P. intersection' = filter P intersection" by blast
  moreover have "\<forall>i<length markers. \<forall>j<length (markers ! i). i = j"
    using off_diagonal_empty [OF e(1)] by blast
  ultimately show ?thesis using e(3,4) by auto
next
  fix f all_markers mapping
  assume t: "0 \<le> top_n"
    and f: "f = (\<lambda>c. take (int_to_size_t top_n) (filter (\<lambda>g. g \<in> snd ` set intersection) c))"
    and am: "all_markers = \<Union> ((\<lambda>c. set (f c)) ` set (off_diagonal 0 markers))"
    and mp: "mapping = snd (compact_spec all_markers 0 intersection Map.empty)"
    and rp: "retain_phase intersection markers top_n = Inr (apply_rows f 0 markers, all_markers)"
    and i': "intersection' = filter (\<lambda>p. snd p \<in> all_markers) intersection"
    and m': "markers' = apply_rows (map (\<lambda>g. the (mapping g))) 0 (apply_rows f 0 markers)"
  have len: "length intersection' \<le> 2 ^ 31"
    using assms(2) length_filter_le [of "\<lambda>p. snd p \<in> all_markers" intersection]
    unfolding i' by linarith
  have entry: "length (markers' ! i ! j) = length (apply_rows f 0 markers ! i ! j) \<and>
      (\<forall>k<length (markers' ! i ! j).
         0 \<le> markers' ! i ! j ! k \<and> markers' ! i ! j ! k < int (length intersection') \<and>
         snd (intersection' ! nat (markers' ! i ! j ! k)) = apply_rows f 0 markers ! i ! j ! k)"
    if ij: "i < length markers" "j < length (markers ! i)" "i \<noteq> j" for i j
  proof -
    have m1: "apply_rows f 0 markers ! i ! j = f (markers ! i ! j)"
      using ij by (simp add: nth_nth_apply_rows)
    have m2: "markers' ! i ! j = map (\<lambda>g. the (mapping g)) (f (markers ! i ! j))"
      using ij unfolding m' by (simp add: nth_nth_apply_rows length_nth_apply_rows)
    have c: "markers ! i ! j \<in> set (off_diagonal 0 markers)"
      using ij off_diagonal_member [of "markers ! i ! j" 0 markers] by auto
    have "0 \<le> the (mapping (f (markers ! i ! j) ! k))
        \<and> the (mapping (f (markers ! i ! j) ! k)) < int (length intersection')
        \<and> snd (intersection' ! nat (the (mapping (f (markers ! i ! j) ! k)))) = f (markers ! i ! j) ! k"
      if k: "k < length (f (markers ! i ! j))" for k
    proof -
      have "f (markers ! i ! j) ! k \<in> set (f (markers ! i ! j))" using k by simp
      from kept_gene_mapped [OF c, of "f (markers ! i ! j) ! k" "int_to_size_t top_n" intersection]
        this
      obtain m where m: "m < length intersection'"
        "mapping (f (markers ! i ! j) ! k) = Some (size_t_to_int m)"
        "snd (intersection' ! m) = f (markers ! i ! j) ! k"
        unfolding f am mp i' by blast
      have "size_t_to_int m = int m" using m(1) len by (simp add: size_t_to_int_small)
      then show ?thesis using m by simp
    qed
    then show ?thesis unfolding m1 m2 by simp
  qed
  have "\<exists>P. intersection' = filter P intersection" using i' by blast
  moreover have "length markers' = length markers" unfolding m' by simp
  moreover have "\<forall>i<length markers. length (markers' ! i) = length (markers ! i)"
    unfolding m' by (simp add: length_nth_apply_rows)
  ultimately show ?thesis using rp entry by auto
qed

theorem marker_indices_address_compacted_intersection_witness:
  "subset_markers [(0, 2), (1, 5), (2, 7), (3, 8)] [[[], [5, 7, 9]], [[2, 3], []]] 2
     = Inr ([(0, 2), (1, 5), (2, 7)], [[[], [1, 2]], [[0], []]])
   \<and> length [(0 :: int, 2 :: int), (1, 5), (2, 7), (3, 8)] \<le> 2 ^ 31
   \<and> retain_phase [(0, 2), (1, 5), (2, 7), (3, 8)] [[[], [5, 7, 9]], [[2, 3], []]] 2
       = Inr ([[[], [5, 7]], [[2], []]], {2, 5, 7})
   \<and> (0 :: int) \<le> 2 \<and> (2 :: int) < int (length [(0 :: int, 2 :: int), (1, 5), (2, 7)])
   \<and> snd ([(0 :: int, 2 :: int), (1, 5), (2, 7)] ! nat 2) = [[[], [5, 7]], [[2], []]] ! 0 ! 1 ! 1"
proof -
  have r: "subset_markers [(0, 2), (1, 5), (2, 7), (3, 8)] [[[], [5, 7, 9]], [[2, 3], []]] 2
     = Inr ([(0, 2), (1, 5), (2, 7)], [[[], [1, 2]], [[0], []]])"
    by (simp add: eval_subset_markers)
  have l: "length [(0 :: int, 2 :: int), (1, 5), (2, 7), (3, 8)] \<le> 2 ^ 31" by simp
  have p: "retain_phase [(0, 2), (1, 5), (2, 7), (3, 8)] [[[], [5, 7, 9]], [[2, 3], []]] 2
       = Inr ([[[], [5, 7]], [[2], []]], {2, 5, 7})"
    by (auto simp: eval_subset_markers)
  show ?thesis
    using marker_indices_address_compacted_intersection [OF r l] r l p by simp
qed

text \<open>
  Claim C10. In the reindexing phase of \<open>subset_markers(intersection, markers, top)\<close>
  the lookup \<open>mapping.find(current[k])\<close> always succeeds: a gene that the filtering
  phase kept is in \<open>all_markers\<close> and is the second element of an entry of the
  intersection, so the mapping built by the compaction contains it, and the function
  never dereferences the end iterator.
\<close>

theorem reindex_lookup_succeeds:
  "subset_markers intersection markers top_n \<noteq> Inl EndIteratorDereference \<and>
   (\<forall>markers1 all_markers intersection' mapping i j g.
      retain_phase intersection markers top_n = Inr (markers1, all_markers) \<and>
      compact_loop all_markers 0 0 intersection Map.empty = (intersection', mapping) \<and>
      i < length markers1 \<and> j < length (markers1 ! i) \<and> i \<noteq> j \<and> g \<in> set (markers1 ! i ! j)
      \<longrightarrow> g \<in> all_markers \<and> g \<in> snd ` set intersection \<and> mapping g \<noteq> None)"
proof (rule conjI; (intro allI impI)?)
  show "subset_markers intersection markers top_n \<noteq> Inl EndIteratorDereference"
  proof (cases "top_n < 0")
    case True
    then show ?thesis by (simp add: subset_markers_negative)
  next
    case False
    then show ?thesis by (simp add: subset_markers_nonneg)
  qed
next
  fix markers1 all_markers intersection' mapping i j g
  assume "retain_phase intersection markers top_n = Inr (markers1, all_markers) \<and>
      compact_loop all_markers 0 0 intersection Map.empty = (intersection', mapping) \<and>
      i < length markers1 \<and> j < length (markers1 ! i) \<and> i \<noteq> j \<and> g \<in> set (markers1 ! i ! j)"
  then have rp: "retain_phase intersection markers top_n = Inr (markers1, all_markers)"
    and cl: "compact_loop all_markers 0 0 intersection Map.empty = (intersection', mapping)"
    and ij: "i < length markers1" "j < length (markers1 ! i)" "i \<noteq> j"
    and g: "g \<in> set (markers1 ! i ! j)"
    by blast+
  show "g \<in> all_markers \<and> g \<in> snd ` set intersection \<and> mapping g \<noteq> None"
  proof (cases "top_n < 0")
    case True
    then have "off_diagonal 0 markers = []" and "markers1 = markers"
      using rp by (simp_all add: retain_phase_negative split: if_splits)
    then have "i = j" using ij(1,2) off_diagonal_empty by blast
    then show ?thesis using ij(3) by simp
  next
    case False
    then have t: "0 \<le> top_n" by simp
    let ?f = "\<lambda>c. take (int_to_size_t top_n) (filter (\<lambda>g. g \<in> snd ` set intersection) c)"
    let ?am = "\<Union> ((\<lambda>c. set (?f c)) ` set (off_diagonal 0 markers))"
    have m1: "markers1 = apply_rows ?f 0 markers" and am: "all_markers = ?am"
      using rp unfolding retain_phase_nonneg [OF t] by simp_all
    have i: "i < length markers" using ij(1) m1 by simp
    have j: "j < length (markers ! i)" using ij(2) i m1 by (simp add: length_nth_apply_rows)
    have c: "markers ! i ! j \<in> set (off_diagonal 0 markers)"
      using i ij(3) j off_diagonal_member [of "markers ! i ! j" 0 markers] by auto
    have g': "g \<in> set (?f (markers ! i ! j))"
      using g i ij(3) j unfolding m1 by (simp add: nth_nth_apply_rows)
    have 1: "g \<in> ?am" using c g' by blast
    have 2: "g \<in> snd ` set intersection" using g' by (auto dest: in_set_takeD)
    from kept_gene_mapped [OF c g']
    have "snd (compact_spec ?am 0 intersection Map.empty) g \<noteq> None"
      by auto
    moreover have "mapping = snd (compact_spec ?am 0 intersection Map.empty)"
      using cl unfolding am compact_loop_start by simp
    ultimately show ?thesis using 1 2 am by simp
  qed
qed

theorem reindex_lookup_succeeds_witness:
  "subset_markers [(0, 2), (1, 5), (2, 7), (3, 8)] [[[], [5, 7, 9]], [[2, 3], []]] 2
     \<noteq> Inl EndIteratorDereference
   \<and> retain_phase [(0, 2), (1, 5), (2, 7), (3, 8)] [[[], [5, 7, 9]], [[2, 3], []]] 2
       = Inr ([[[], [5, 7]], [[2], []]], {2, 5, 7})
   \<and> (0 :: nat) < length [[[], [5, 7]], [[2], [] :: int list]]
   \<and> (1 :: nat) < length ([[[], [5, 7]], [[2], [] :: int list]] ! 0) \<and> (0 :: nat) \<noteq> 1
   \<and> (7 :: int) \<in> set ([[[], [5, 7]], [[2], []]] ! 0 ! 1)
   \<and> (7 :: int) \<in> {2, 5, 7} \<and> (7 :: int) \<in> snd ` set [(0 :: int, 2 :: int), (1, 5), (2, 7), (3, 8)]
   \<and> snd (compact_loop {2, 5, 7} 0 0 [(0, 2), (1, 5), (2, 7), (3, 8)] Map.empty) 7 \<noteq> None"
proof -
  have p: "retain_phase [(0, 2), (1, 5), (2, 7), (3, 8)] [[[], [5, 7, 9]], [[2, 3], []]] 2
       = Inr ([[[], [5, 7]], [[2], []]], {2, 5, 7})"
    by (auto simp: eval_subset_markers)
  note w = reindex_lookup_succeeds [of "[(0, 2), (1, 5), (2, 7), (3, 8)]"
      "[[[], [5, 7, 9]], [[2, 3], []]]" 2]
  from w [THEN conjunct1]
    w [THEN conjunct2, rule_format, of "[[[], [5, 7]], [[2], []]]" "{2, 5, 7}"
      "fst (compact_loop {2, 5, 7} 0 0 [(0, 2), (1, 5), (2, 7), (3, 8)] Map.empty)"
      "snd (compact_loop {2, 5, 7} 0 0 [(0, 2), (1, 5), (2, 7), (3, 8)] Map.empty)" 0 1 7]
    p
  show ?thesis by simp
qed

text \<open>
  Claim C8. \<open>subset_markers(markers, top)\<close> filters nothing: for every ordered pair
  of labels \<open>i \<noteq> j\<close> it cuts \<open>markers[i][j]\<close> down to its first
  \<open>min(top, length)\<close> entries, and after the reindexing the returned vector
  \<open>subset\<close>, which is sorted and without duplicates, read at a rewritten marker
  index, gives back the gene that was at this place. In the witness the kept genes come
  in the order \<open>7, 5, 3, 2\<close> and \<open>subset\<close> is \<open>[2, 3, 5, 7]\<close>.
  \<open>static_cast<size_t>(top)\<close> is \<open>top\<close> itself when \<open>top\<close> is not negative; the
  new indices are stored in \<open>int\<close>, so \<open>subset\<close> has at most \<open>2^31\<close> elements.
\<close>

theorem truncate_and_reindex:
  "\<exists>subset markers'.
     subset_markers_identical markers top_n = Inr (subset, markers') \<and>
     length markers' = length markers \<and>
     sorted subset \<and> distinct subset \<and>
     (0 \<le> top_n \<and> top_n < 2 ^ 31 \<longrightarrow> int_to_size_t top_n = nat top_n) \<and>
     (\<forall>i<length markers. length (markers' ! i) = length (markers ! i) \<and>
        (\<forall>j<length (markers ! i). i \<noteq> j \<longrightarrow>
           length (markers' ! i ! j) = min (length (markers ! i ! j)) (int_to_size_t top_n) \<and>
           (length subset \<le> 2 ^ 31 \<longrightarrow>
              (\<forall>k<length (markers' ! i ! j).
                 0 \<le> markers' ! i ! j ! k \<and> nat (markers' ! i ! j ! k) < length subset \<and>
                 subset ! nat (markers' ! i ! j ! k) = markers ! i ! j ! k))))"
proof -
  let ?t = "\<lambda>c :: int list. take (min (length c) (int_to_size_t top_n)) c"
  let ?s = "sorted_list_of_set (\<Union> ((\<lambda>c. set (?t c)) ` set (off_diagonal 0 markers)))"
  let ?m = "mapping_loop 0 ?s Map.empty"
  let ?r = "apply_rows (map (\<lambda>g. the (?m g))) 0 (apply_rows ?t 0 markers)"
  note eq = subset_markers_identical_eq [where markers = markers and top_n = top_n]
  have entry: "length (?r ! i ! j) = min (length (markers ! i ! j)) (int_to_size_t top_n) \<and>
      (length ?s \<le> 2 ^ 31 \<longrightarrow>
         (\<forall>k<length (?r ! i ! j).
            0 \<le> ?r ! i ! j ! k \<and> nat (?r ! i ! j ! k) < length ?s \<and>
            ?s ! nat (?r ! i ! j ! k) = markers ! i ! j ! k))"
    if ij: "i < length markers" "j < length (markers ! i)" "i \<noteq> j" for i j
  proof -
    have r: "?r ! i ! j = map (\<lambda>g. the (?m g)) (?t (markers ! i ! j))"
      using ij by (simp add: nth_nth_apply_rows length_nth_apply_rows)
    have c: "markers ! i ! j \<in> set (off_diagonal 0 markers)"
      using ij off_diagonal_member [of "markers ! i ! j" 0 markers] by auto
    have "0 \<le> the (?m (?t (markers ! i ! j) ! k)) \<and> nat (the (?m (?t (markers ! i ! j) ! k))) < length ?s
        \<and> ?s ! nat (the (?m (?t (markers ! i ! j) ! k))) = markers ! i ! j ! k"
      if k: "k < length (?t (markers ! i ! j))" and small: "length ?s \<le> 2 ^ 31" for k
    proof -
      have "?t (markers ! i ! j) ! k \<in> set (?t (markers ! i ! j))" using k by (rule nth_mem)
      then have "?t (markers ! i ! j) ! k \<in> set ?s" unfolding eq(2) using c by blast
      then obtain n where n: "n < length ?s" "?s ! n = ?t (markers ! i ! j) ! k"
        unfolding in_set_conv_nth by blast
      have "?m (?s ! n) = Some (size_t_to_int (0 + n))"
        using eq(3) n(1) by (rule mapping_loop_nth)
      moreover have "size_t_to_int n = int n" using n(1) small by (simp add: size_t_to_int_small)
      moreover have "?t (markers ! i ! j) ! k = markers ! i ! j ! k" using k by simp
      ultimately show ?thesis using n by simp
    qed
    then show ?thesis unfolding r by simp
  qed
  have "length ?r = length markers" by simp
  moreover have "\<forall>i<length markers. length (?r ! i) = length (markers ! i)"
    by (simp add: length_nth_apply_rows)
  moreover have "0 \<le> top_n \<and> top_n < 2 ^ 31 \<longrightarrow> int_to_size_t top_n = nat top_n"
    by (simp add: int_to_size_t_nat)
  moreover have "sorted ?s" by simp
  ultimately show ?thesis using eq(1) eq(3) entry by blast
qed

theorem truncate_and_reindex_witness:
  "subset_markers_identical [[[1], [7, 5, 9]], [[3, 2, 5], []]] 2
     = Inr ([2, 3, 5, 7], [[[1], [3, 2]], [[1, 0], []]])
   \<and> sorted [2, 3, 5, 7 :: int] \<and> distinct [2, 3, 5, 7 :: int]
   \<and> (0 :: int) \<le> 2 \<and> (2 :: int) < 2 ^ 31 \<and> int_to_size_t 2 = nat 2
   \<and> length [2, 3, 5, 7 :: int] \<le> 2 ^ 31
   \<and> (0 :: nat) < length [[[1], [7, 5, 9]], [[3, 2, 5], [] :: int list]]
   \<and> (1 :: nat) < length ([[[1], [7, 5, 9]], [[3, 2, 5], [] :: int list]] ! 0) \<and> (0 :: nat) \<noteq> 1
   \<and> length ([[[1], [3, 2]], [[1, 0], [] :: int list]] ! 0 ! 1)
       = min (length [7, 5, 9 :: int]) (int_to_size_t 2)
   \<and> [2, 3, 5, 7] ! nat ([[[1], [3, 2]], [[1, 0], []]] ! 0 ! 1 ! 0)
       = [[[1], [7, 5, 9]], [[3, 2, 5], [] :: int list]] ! 0 ! 1 ! 0
   \<and> [2, 3, 5, 7] ! nat ([[[1], [3, 2]], [[1, 0], []]] ! 0 ! 1 ! 1)
       = [[[1], [7, 5, 9]], [[3, 2, 5], [] :: int list]] ! 0 ! 1 ! 1"
proof -
  have e: "subset_markers_identical [[[1], [7, 5, 9]], [[3, 2, 5], []]] 2
     = Inr ([2, 3, 5, 7], [[[1], [3, 2]], [[1, 0], []]])"
    by (simp add: eval_subset_markers_identical)
  show ?thesis
    using truncate_and_reindex [of "[[[1], [7, 5, 9]], [[3, 2, 5], []]]" 2] e
    by (simp add: int_to_size_t_def)
qed

text \<open>
  Claim C9. Both overloads of \<open>subset_markers\<close> leave every list \<open>markers[i][i]\<close>
  as it is, and these lists contribute nothing to the sets: \<open>available\<close> of the first
  overload is made of the intersection alone, its \<open>all_markers\<close> is the union of the
  filtered off-diagonal lists, and \<open>subset\<close> of the second overload holds the genes
  of the truncated off-diagonal lists and no other. In the witness the diagonal list
  \<open>[8]\<close> holds an available gene that no off-diagonal list has: it stays \<open>[8]\<close>,
  and \<open>8\<close> is neither in \<open>all_markers\<close> nor in \<open>subset\<close>.
\<close>

theorem diagonal_untouched:
  "(\<forall>intersection' markers'.
      subset_markers intersection markers top_n = Inr (intersection', markers') \<longrightarrow>
      length markers' = length markers \<and>
      (\<forall>i<length markers. length (markers' ! i) = length (markers ! i) \<and>
         (i < length (markers ! i) \<longrightarrow> markers' ! i ! i = markers ! i ! i))) \<and>
   (\<forall>subset markers'.
      subset_markers_identical markers top_n = Inr (subset, markers') \<longrightarrow>
      length markers' = length markers \<and>
      (\<forall>i<length markers. length (markers' ! i) = length (markers ! i) \<and>
         (i < length (markers ! i) \<longrightarrow> markers' ! i ! i = markers ! i ! i)) \<and>
      set subset = {g. \<exists>i<length markers. \<exists>j<length (markers ! i). i \<noteq> j \<and>
         g \<in> set (take (min (length (markers ! i ! j)) (int_to_size_t top_n)) (markers ! i ! j))}) \<and>
   (\<forall>markers1 all_markers.
      retain_phase intersection markers top_n = Inr (markers1, all_markers) \<longrightarrow>
      all_markers = {g. \<exists>i<length markers1. \<exists>j<length (markers1 ! i). i \<noteq> j \<and>
         g \<in> set (markers1 ! i ! j)}) \<and>
   available_of intersection = snd ` set intersection"
proof (intro conjI allI impI)
  fix intersection' markers'
  assume a: "subset_markers intersection markers top_n = Inr (intersection', markers')"
  have "length markers' = length markers \<and>
      (\<forall>i<length markers. length (markers' ! i) = length (markers ! i) \<and>
         (i < length (markers ! i) \<longrightarrow> markers' ! i ! i = markers ! i ! i))"
    using subset_markers_cases [OF a]
    by (auto simp: length_nth_apply_rows nth_nth_apply_rows)
  then show "length markers' = length markers"
    and "\<And>i. i < length markers \<Longrightarrow> length (markers' ! i) = length (markers ! i)"
    and "\<And>i. i < length markers \<Longrightarrow> i < length (markers ! i) \<Longrightarrow> markers' ! i ! i = markers ! i ! i"
    by blast+
next
  fix subset markers'
  assume a: "subset_markers_identical markers top_n = Inr (subset, markers')"
  note eq = subset_markers_identical_eq [where markers = markers and top_n = top_n]
  have s: "subset = sorted_list_of_set
      (\<Union> ((\<lambda>c. set (take (min (length c) (int_to_size_t top_n)) c)) ` set (off_diagonal 0 markers)))"
    and m: "markers' = apply_rows (map (\<lambda>g. the (mapping_loop 0 subset Map.empty g))) 0
      (apply_rows (\<lambda>c. take (min (length c) (int_to_size_t top_n)) c) 0 markers)"
    using a unfolding eq(1) by auto
  show "length markers' = length markers" unfolding m by simp
  show "\<And>i. i < length markers \<Longrightarrow> length (markers' ! i) = length (markers ! i)"
    unfolding m by (simp add: length_nth_apply_rows)
  show "\<And>i. i < length markers \<Longrightarrow> i < length (markers ! i) \<Longrightarrow> markers' ! i ! i = markers ! i ! i"
    unfolding m by (simp add: length_nth_apply_rows nth_nth_apply_rows)
  show "set subset = {g. \<exists>i<length markers. \<exists>j<length (markers ! i). i \<noteq> j \<and>
         g \<in> set (take (min (length (markers ! i ! j)) (int_to_size_t top_n)) (markers ! i ! j))}"
    unfolding s eq(2)
    by (rule union_off_diagonal
        [of "\<lambda>c. set (take (min (length c) (int_to_size_t top_n)) c)" markers])
next
  fix markers1 all_markers
  assume a: "retain_phase intersection markers top_n = Inr (markers1, all_markers)"
  show "all_markers = {g. \<exists>i<length markers1. \<exists>j<length (markers1 ! i). i \<noteq> j \<and>
         g \<in> set (markers1 ! i ! j)}"
  proof (cases "top_n < 0")
    case True
    then have e: "off_diagonal 0 markers = []" and m: "markers1 = markers" and am: "all_markers = {}"
      using a by (simp_all add: retain_phase_negative split: if_splits)
    have "\<Union> (set ` set (off_diagonal 0 markers)) = {}" using e by simp
    then show ?thesis unfolding m am union_off_diagonal [of set markers] by simp
  next
    case False
    then have t: "0 \<le> top_n" by simp
    let ?f = "\<lambda>c. take (int_to_size_t top_n) (filter (\<lambda>g. g \<in> snd ` set intersection) c)"
    have m: "markers1 = apply_rows ?f 0 markers"
      and am: "all_markers = \<Union> ((\<lambda>c. set (?f c)) ` set (off_diagonal 0 markers))"
      using a unfolding retain_phase_nonneg [OF t] by simp_all
    have "\<Union> (set ` set (off_diagonal 0 markers1)) = all_markers"
      unfolding m am off_diagonal_apply by simp
    then show ?thesis unfolding union_off_diagonal [of set markers1] by simp
  qed
next
  show "available_of intersection = snd ` set intersection" by (rule available_of_eq)
qed

theorem diagonal_untouched_witness:
  "subset_markers [(0, 2), (1, 5), (2, 7), (3, 8)] [[[1], [5, 7, 9]], [[2, 3, 5], [8]]] 2
     = Inr ([(0, 2), (1, 5), (2, 7)], [[[1], [1, 2]], [[0, 1], [8]]])
   \<and> subset_markers_identical [[[1], [5, 7, 9]], [[2, 3, 5], [8]]] 2
     = Inr ([2, 3, 5, 7], [[[1], [2, 3]], [[0, 1], [8]]])
   \<and> retain_phase [(0, 2), (1, 5), (2, 7), (3, 8)] [[[1], [5, 7, 9]], [[2, 3, 5], [8]]] 2
     = Inr ([[[1], [5, 7]], [[2, 5], [8]]], {2, 5, 7})
   \<and> (1 :: nat) < length [[[1], [5, 7, 9]], [[2, 3, 5], [8 :: int]]]
   \<and> (1 :: nat) < length ([[[1], [5, 7, 9]], [[2, 3, 5], [8 :: int]]] ! 1)
   \<and> [[[1], [1, 2]], [[0, 1], [8]]] ! 1 ! 1 = [[[1], [5, 7, 9]], [[2, 3, 5], [8 :: int]]] ! 1 ! 1
   \<and> [[[1], [2, 3]], [[0, 1], [8]]] ! 1 ! 1 = [[[1], [5, 7, 9]], [[2, 3, 5], [8 :: int]]] ! 1 ! 1
   \<and> (8 :: int) \<notin> {2, 5, 7} \<and> (8 :: int) \<notin> set [2, 3, 5, 7]"
proof -
  have r: "subset_markers [(0, 2), (1, 5), (2, 7), (3, 8)] [[[1], [5, 7, 9]], [[2, 3, 5], [8]]] 2
     = Inr ([(0, 2), (1, 5), (2, 7)], [[[1], [1, 2]], [[0, 1], [8]]])"
    by (simp add: eval_subset_markers)
  have e: "subset_markers_identical [[[1], [5, 7, 9]], [[2, 3, 5], [8]]] 2
     = Inr ([2, 3, 5, 7], [[[1], [2, 3]], [[0, 1], [8]]])"
    by (simp add: eval_subset_markers_identical)
  have p: "retain_phase [(0, 2), (1, 5), (2, 7), (3, 8)] [[[1], [5, 7, 9]], [[2, 3, 5], [8]]] 2
     = Inr ([[[1], [5, 7]], [[2, 5], [8]]], {2, 5, 7})"
    by (auto simp: eval_subset_markers)
  show ?thesis
    using diagonal_untouched [of "[(0, 2), (1, 5), (2, 7), (3, 8)]"
        "[[[1], [5, 7, 9]], [[2, 3, 5], [8]]]" 2] r e p
    by (simp add: All_less_Suc Ex_less_Suc int_to_size_t_def)
qed

section \<open>Properties of \<open>classify_integrated\<close>\<close>

lemma running_after_0: "running_after sc 0 = initial_running"
  by (simp add: running_after_def)

lemma running_after_Suc: "running_after sc (Suc n) = track (sc n) n (running_after sc n)"
  by (simp add: running_after_def)

lemma for_loop_append:
  "for_loop body (xs @ ys) s =
     (case for_loop body xs s of None \<Rightarrow> None | Some s' \<Rightarrow> for_loop body ys s')"
  by (induction xs arbitrary: s) (auto split: option.splits)

lemma record_score_frame:
  "record_score buffers r i score = Some buffers' \<Longrightarrow>
     best buffers' = best buffers \<and> delta buffers' = delta buffers
     \<and> length (scores buffers') = length (scores buffers)"
  by (auto simp: record_score_def split: if_splits option.splits)

lemma record_score_total:
  "r < length (scores buffers) \<Longrightarrow> \<exists>buffers'. record_score buffers r i score = Some buffers'"
  by (simp add: record_score_def)

lemma references_loop_result:
  "for_loop (reference_step score_of i) [0..<n] (buffers, st) = Some (buffers', st') \<Longrightarrow>
     st' = fold (\<lambda>r. track (score_of r i) r) [0..<n] st \<and>
     best buffers' = best buffers \<and> delta buffers' = delta buffers \<and>
     length (scores buffers') = length (scores buffers)"
proof (induction n arbitrary: buffers' st')
  case 0
  then show ?case by simp
next
  case (Suc n)
  from Suc.prems obtain b1 s1 where
    1: "for_loop (reference_step score_of i) [0..<n] (buffers, st) = Some (b1, s1)"
    and 2: "reference_step score_of i n (b1, s1) = Some (buffers', st')"
    by (auto simp: for_loop_append split: option.splits)
  from 2 obtain 3: "record_score b1 n i (score_of n i) = Some buffers'"
    and 4: "st' = track (score_of n i) n s1"
    by (auto simp: reference_step_def Let_def split: option.splits)
  show ?case using Suc.IH [OF 1] record_score_frame [OF 3] 4 by simp
qed

lemma references_loop_total:
  "n \<le> length (scores buffers) \<Longrightarrow>
     \<exists>buffers' st'. for_loop (reference_step score_of i) [0..<n] (buffers, st) = Some (buffers', st')"
proof (induction n)
  case 0
  then show ?case by simp
next
  case (Suc n)
  then obtain b1 s1 where
    1: "for_loop (reference_step score_of i) [0..<n] (buffers, st) = Some (b1, s1)"
    by auto
  have "n < length (scores b1)" using references_loop_result [OF 1] Suc.prems by simp
  from record_score_total [OF this] obtain b2 where "record_score b1 n i (score_of n i) = Some b2"
    by blast
  then have "reference_step score_of i n (b1, s1) = Some (b2, track (score_of n i) n s1)"
    by (simp add: reference_step_def)
  then show ?case by (simp add: for_loop_append 1)
qed

lemma classify_cell_result:
  assumes "classify_cell score_of float_minus nref i buffers = Some buffers'"
  shows "best buffers' =
           map_option (\<lambda>b. b(i := best_ref (running_after (\<lambda>r. score_of r i) nref))) (best buffers)"
    and "delta buffers' =
           map_option (\<lambda>d. d(i :=
             (if nref > 1
              then float_minus (best_score (running_after (\<lambda>r. score_of r i) nref))
                     (next_best (running_after (\<lambda>r. score_of r i) nref))
              else NaN))) (delta buffers)"
    and "length (scores buffers') = length (scores buffers)"
proof -
  from assms obtain b1 st where
    1: "for_loop (reference_step score_of i) [0..<nref] (buffers, initial_running) = Some (b1, st)"
    by (auto simp: classify_cell_def split: option.splits)
  note r = references_loop_result [OF 1]
  have st: "st = running_after (\<lambda>r. score_of r i) nref" using r by (simp add: running_after_def)
  have e: "buffers' =
      (let buffers2 =
             (case best b1 of
                None \<Rightarrow> b1
              | Some b \<Rightarrow> b1\<lparr>best := Some (b(i := best_ref st))\<rparr>)
       in (case delta buffers2 of
             None \<Rightarrow> buffers2
           | Some d \<Rightarrow>
               buffers2\<lparr>delta := Some (d(i :=
                 (if nref > 1 then float_minus (best_score st) (next_best st) else NaN)))\<rparr>))"
    using assms 1 by (simp add: classify_cell_def Let_def)
  show "best buffers' =
           map_option (\<lambda>b. b(i := best_ref (running_after (\<lambda>r. score_of r i) nref))) (best buffers)"
    unfolding e st [symmetric] using r by (auto simp: Let_def split: option.splits)
  show "delta buffers' =
           map_option (\<lambda>d. d(i :=
             (if nref > 1
              then float_minus (best_score (running_after (\<lambda>r. score_of r i) nref))
                     (next_best (running_after (\<lambda>r. score_of r i) nref))
              else NaN))) (delta buffers)"
    unfolding e st [symmetric] using r by (auto simp: Let_def split: option.splits)
  show "length (scores buffers') = length (scores buffers)"
    unfolding e using r by (auto simp: Let_def split: option.splits)
qed

lemma classify_cell_total:
  "nref \<le> length (scores buffers) \<Longrightarrow>
     \<exists>buffers'. classify_cell score_of float_minus nref i buffers = Some buffers'"
  using references_loop_total [of nref buffers score_of i initial_running]
  by (auto simp: classify_cell_def Let_def)

lemma cells_loop_result:
  "for_loop (classify_cell score_of float_minus nref) cells buffers = Some buffers' \<Longrightarrow>
     (\<forall>b. best buffers = Some b \<longrightarrow>
        (\<exists>b'. best buffers' = Some b' \<and>
           (\<forall>i. b' i = (if i \<in> set cells
                        then best_ref (running_after (\<lambda>r. score_of r i) nref) else b i)))) \<and>
     (\<forall>d. delta buffers = Some d \<longrightarrow>
        (\<exists>d'. delta buffers' = Some d' \<and>
           (\<forall>i. d' i = (if i \<in> set cells
                        then (if nref > 1
                              then float_minus (best_score (running_after (\<lambda>r. score_of r i) nref))
                                     (next_best (running_after (\<lambda>r. score_of r i) nref))
                              else NaN)
                        else d i))))"
proof (induction cells arbitrary: buffers)
  case Nil
  then show ?case by simp
next
  case (Cons c cells)
  from Cons.prems obtain b1 where
    1: "classify_cell score_of float_minus nref c buffers = Some b1"
    and 2: "for_loop (classify_cell score_of float_minus nref) cells b1 = Some buffers'"
    by (auto split: option.splits)
  note r = classify_cell_result [OF 1]
  note ih = Cons.IH [OF 2]
  show ?case
  proof (intro conjI allI impI)
    fix b assume "best buffers = Some b"
    then have "best b1 = Some (b(c := best_ref (running_after (\<lambda>r. score_of r c) nref)))"
      using r(1) by simp
    with ih obtain b' where "best buffers' = Some b'"
      and "\<forall>i. b' i = (if i \<in> set cells
                        then best_ref (running_after (\<lambda>r. score_of r i) nref)
                        else (b(c := best_ref (running_after (\<lambda>r. score_of r c) nref))) i)"
      by blast
    then show "\<exists>b'. best buffers' = Some b' \<and>
           (\<forall>i. b' i = (if i \<in> set (c # cells)
                        then best_ref (running_after (\<lambda>r. score_of r i) nref) else b i))"
      by auto
  next
    let ?v = "\<lambda>i. if nref > 1
                  then float_minus (best_score (running_after (\<lambda>r. score_of r i) nref))
                         (next_best (running_after (\<lambda>r. score_of r i) nref))
                  else NaN"
    fix d assume "delta buffers = Some d"
    then have "delta b1 = Some (d(c := ?v c))" using r(2) by simp
    with ih obtain d' where "delta buffers' = Some d'"
      and "\<forall>i. d' i = (if i \<in> set cells then ?v i else (d(c := ?v c)) i)"
      by blast
    then show "\<exists>d'. delta buffers' = Some d' \<and>
           (\<forall>i. d' i = (if i \<in> set (c # cells) then ?v i else d i))"
      by auto
  qed
qed

lemma cells_loop_total:
  "nref \<le> length (scores buffers) \<Longrightarrow>
     \<exists>buffers'. for_loop (classify_cell score_of float_minus nref) cells buffers = Some buffers'"
proof (induction cells arbitrary: buffers)
  case Nil
  then show ?case by simp
next
  case (Cons c cells)
  from classify_cell_total [OF Cons.prems] obtain b1 where
    1: "classify_cell score_of float_minus nref c buffers = Some b1" by blast
  have "nref \<le> length (scores b1)" using classify_cell_result(3) [OF 1] Cons.prems by simp
  from Cons.IH [OF this] show ?case using 1 by simp
qed

lemma not_greater_mono:
  "\<not> float_greater s (Finite b) \<Longrightarrow> b \<le> v \<Longrightarrow> \<not> float_greater s (Finite v)"
  by (cases s) auto

lemma not_greater_differs:
  "\<not> float_greater s (Finite b) \<Longrightarrow> b < v \<Longrightarrow> s \<noteq> Finite v"
  by (cases s) auto

lemma best_invariant_step:
  assumes "best_invariant sc n st"
  shows "best_invariant sc (Suc n) (track (sc n) n st)"
proof -
  from assms obtain b q where bq: "best_score st = Finite b" "next_best st = Finite q"
    "- 1000 \<le> q" "q \<le> b"
    and no: "\<forall>r<n. \<not> float_greater (sc r) (Finite b)"
    and which: "(b = - 1000 \<and> best_ref st = 0) \<or>
         (- 1000 < b \<and> best_ref st < n \<and> sc (best_ref st) = Finite b \<and>
          (\<forall>r<best_ref st. sc r \<noteq> Finite b))"
    unfolding best_invariant_def by blast
  have keep: "(b = - 1000 \<and> best_ref st = 0) \<or>
         (- 1000 < b \<and> best_ref st < Suc n \<and> sc (best_ref st) = Finite b \<and>
          (\<forall>r<best_ref st. sc r \<noteq> Finite b))"
    using which by auto
  show ?thesis
  proof (cases "sc n")
    case NaN
    then have "track (sc n) n st = st" by (simp add: track_def)
    moreover have "\<forall>r<Suc n. \<not> float_greater (sc r) (Finite b)"
      using no NaN by (simp add: less_Suc_eq)
    ultimately show ?thesis unfolding best_invariant_def using bq keep by auto
  next
    case (Finite v)
    consider "b < v" | "v \<le> b" "q < v" | "v \<le> b" "v \<le> q" by linarith
    then show ?thesis
    proof cases
      case 1
      then have t: "track (sc n) n st = \<lparr>best_score = Finite v, next_best = Finite b, best_ref = n\<rparr>"
        using Finite bq by (simp add: track_def)
      have "\<not> float_greater (sc r) (Finite v)" if "r < n" for r
        using no that 1 not_greater_mono [of "sc r" b v] by simp
      then have a: "\<forall>r<Suc n. \<not> float_greater (sc r) (Finite v)"
        using Finite by (simp add: less_Suc_eq)
      have "sc r \<noteq> Finite v" if "r < n" for r
        using no that 1 not_greater_differs [of "sc r" b v] by simp
      then have c: "\<forall>r<n. sc r \<noteq> Finite v" by simp
      have "- 1000 < v" using 1 bq by linarith
      then show ?thesis unfolding best_invariant_def t using a c 1 bq Finite by auto
    next
      case 2
      then have t: "track (sc n) n st = st\<lparr>next_best := Finite v\<rparr>"
        using Finite bq by (simp add: track_def)
      have a: "\<forall>r<Suc n. \<not> float_greater (sc r) (Finite b)"
        using no 2 Finite by (simp add: less_Suc_eq)
      have "- 1000 \<le> v" using 2 bq by linarith
      then show ?thesis unfolding best_invariant_def t using a 2 bq keep by auto
    next
      case 3
      then have t: "track (sc n) n st = st"
        using Finite bq by (simp add: track_def)
      have a: "\<forall>r<Suc n. \<not> float_greater (sc r) (Finite b)"
        using no 3 Finite by (simp add: less_Suc_eq)
      show ?thesis unfolding best_invariant_def t using a bq keep by auto
    qed
  qed
qed

lemma best_invariant_running: "best_invariant sc n (running_after sc n)"
proof (induction n)
  case 0
  show ?case by (simp add: running_after_0 best_invariant_def initial_running_def)
next
  case (Suc n)
  then show ?case unfolding running_after_Suc by (rule best_invariant_step)
qed

lemma second_invariant_first:
  assumes "- 1000 < x 0" and "sc 0 = Finite (x 0)"
  shows "second_invariant x (Suc 0) (running_after sc (Suc 0))"
  using assms
  by (simp add: running_after_Suc running_after_0 track_def initial_running_def second_invariant_def)

lemma second_invariant_step:
  assumes inv: "second_invariant x n st" and n: "0 < n"
    and sc: "sc n = Finite (x n)" and low: "\<forall>r<n. - 1000 < x r" "- 1000 < x n"
  shows "second_invariant x (Suc n) (track (sc n) n st)"
proof -
  let ?b = "best_ref st"
  from inv have b: "?b < n" "best_score st = Finite (x ?b)" "\<forall>r<n. x r \<le> x ?b"
    and one: "n = 1 \<longrightarrow> next_best st = Finite (- 1000)"
    and two: "2 \<le> n \<longrightarrow> (\<exists>s<n. s \<noteq> ?b \<and> next_best st = Finite (x s) \<and>
           (\<forall>r<n. r \<noteq> ?b \<longrightarrow> x r \<le> x s))"
    unfolding second_invariant_def by blast+
  obtain q where q: "next_best st = Finite q"
    and qmax: "\<forall>r<n. r \<noteq> ?b \<longrightarrow> x r \<le> q"
    and qlow: "n = 1 \<longrightarrow> q = - 1000"
    and qwho: "2 \<le> n \<longrightarrow> (\<exists>s<n. s \<noteq> ?b \<and> q = x s)"
  proof (cases "n = 1")
    case True
    then have "next_best st = Finite (- 1000)" using one by simp
    moreover have "\<forall>r<n. r \<noteq> ?b \<longrightarrow> x r \<le> - 1000" using True b(1) by auto
    ultimately show ?thesis using that [of "- 1000"] True by simp
  next
    case False
    then have "2 \<le> n" using n by simp
    with two obtain s where "s < n" "s \<noteq> ?b" "next_best st = Finite (x s)"
      "\<forall>r<n. r \<noteq> ?b \<longrightarrow> x r \<le> x s" by blast
    then show ?thesis using that [of "x s"] False by blast
  qed
  have ge2: "2 \<le> Suc n" using n by simp
  consider "x ?b < x n" | "x n \<le> x ?b" "q < x n" | "x n \<le> x ?b" "x n \<le> q" by linarith
  then show ?thesis
  proof cases
    case 1
    then have t: "track (sc n) n st = \<lparr>best_score = Finite (x n), next_best = Finite (x ?b), best_ref = n\<rparr>"
      using sc b by (simp add: track_def)
    have "\<forall>r<Suc n. x r \<le> x n" using b(3) 1 by (auto simp: less_Suc_eq intro: order_trans less_imp_le)
    moreover have "?b < Suc n \<and> ?b \<noteq> n \<and> (\<forall>r<Suc n. r \<noteq> n \<longrightarrow> x r \<le> x ?b)"
      using b by (auto simp: less_Suc_eq)
    ultimately show ?thesis unfolding second_invariant_def t using n by auto
  next
    case 2
    then have t: "track (sc n) n st = st\<lparr>next_best := Finite (x n)\<rparr>"
      using sc b q by (simp add: track_def)
    have "\<forall>r<Suc n. x r \<le> x ?b" using b(3) 2 by (simp add: less_Suc_eq)
    moreover have "n < Suc n \<and> n \<noteq> ?b \<and> (\<forall>r<Suc n. r \<noteq> ?b \<longrightarrow> x r \<le> x n)"
      using b(1) qmax 2 by (auto simp: less_Suc_eq intro: order_trans less_imp_le)
    ultimately show ?thesis unfolding second_invariant_def t using b n by auto
  next
    case 3
    then have t: "track (sc n) n st = st"
      using sc b q by (simp add: track_def)
    have "n \<noteq> 1"
    proof
      assume "n = 1"
      then have "q = - 1000" using qlow by simp
      then show False using 3 low(2) by simp
    qed
    then have "2 \<le> n" using n by simp
    with qwho obtain s where s: "s < n" "s \<noteq> ?b" "q = x s" by blast
    have "\<forall>r<Suc n. x r \<le> x ?b" using b(3) 3 by (simp add: less_Suc_eq)
    moreover have "s < Suc n \<and> s \<noteq> ?b \<and> next_best st = Finite (x s)
        \<and> (\<forall>r<Suc n. r \<noteq> ?b \<longrightarrow> x r \<le> x s)"
      using s q qmax 3 by (auto simp: less_Suc_eq)
    ultimately show ?thesis unfolding second_invariant_def t using b n by auto
  qed
qed

lemma second_invariant_running:
  assumes "\<forall>r<Suc n. sc r = Finite (x r) \<and> - 1000 < x r"
  shows "second_invariant x (Suc n) (running_after sc (Suc n))"
  using assms
proof (induction n)
  case 0
  then show ?case by (simp add: second_invariant_first)
next
  case (Suc n)
  have "second_invariant x (Suc n) (running_after sc (Suc n))"
    using Suc.IH Suc.prems by simp
  then show ?case
    unfolding running_after_Suc [of sc "Suc n"]
    using Suc.prems by (intro second_invariant_step) simp_all
qed

section \<open>Claims about \<open>classify_integrated\<close>\<close>

text \<open>The definitions that a concrete call unfolds.\<close>

lemmas eval_classify =
  classify_block_def classify_cell_def reference_step_def record_score_def track_def
  initial_running_def Let_def upt_rec

text \<open>
  Claim C3. In \<open>classify_integrated\<close>, for every cell, when several references reach
  the same best score, the first of them (the lowest index) is recorded as the best
  reference of the cell: the running best is replaced only when the new score is
  strictly greater, and the running second-best only when the new score is strictly
  greater than the current second-best. The best score \<open>m\<close> is above \<open>-1000\<close>, the
  value from which the loop starts (scores are quantiles of correlations). The cell
  \<open>i\<close> belongs to the block of cells that the call of the function body processes, and
  the \<open>best\<close> buffer is not null. The last part says that the body returns when
  \<open>buffers.scores\<close> has an entry for every reference.
\<close>

theorem first_best_reference_wins:
  "(\<forall>buffers' b k m.
      classify_block score_of float_minus nref start len buffers = Some buffers' \<and>
      best buffers = Some b \<and> start \<le> i \<and> i < start + len \<and>
      k < nref \<and> score_of k i = Finite m \<and> - 1000 < m \<and>
      (\<forall>r<nref. \<not> float_greater (score_of r i) (Finite m))
      \<longrightarrow> (\<exists>b'. best buffers' = Some b' \<and> b' i \<le> k \<and> score_of (b' i) i = Finite m \<and>
             (\<forall>r<b' i. score_of r i \<noteq> Finite m))) \<and>
   (\<forall>n score.
      (best_score (track score n (running_after (\<lambda>r. score_of r i) n))
          \<noteq> best_score (running_after (\<lambda>r. score_of r i) n) \<or>
       best_ref (track score n (running_after (\<lambda>r. score_of r i) n))
          \<noteq> best_ref (running_after (\<lambda>r. score_of r i) n)
       \<longrightarrow> float_greater score (best_score (running_after (\<lambda>r. score_of r i) n))) \<and>
      (next_best (track score n (running_after (\<lambda>r. score_of r i) n))
          \<noteq> next_best (running_after (\<lambda>r. score_of r i) n)
       \<longrightarrow> float_greater score (next_best (running_after (\<lambda>r. score_of r i) n)))) \<and>
   (nref \<le> length (scores buffers) \<longrightarrow>
      (\<exists>buffers'. classify_block score_of float_minus nref start len buffers = Some buffers'))"
proof (intro conjI allI impI)
  fix buffers' b k m
  assume a: "classify_block score_of float_minus nref start len buffers = Some buffers' \<and>
      best buffers = Some b \<and> start \<le> i \<and> i < start + len \<and>
      k < nref \<and> score_of k i = Finite m \<and> - 1000 < m \<and>
      (\<forall>r<nref. \<not> float_greater (score_of r i) (Finite m))"
  let ?sc = "\<lambda>r. score_of r i"
  let ?st = "running_after ?sc nref"
  from a have run: "for_loop (classify_cell score_of float_minus nref) [start..<start + len] buffers
      = Some buffers'"
    by (simp add: classify_block_def)
  from cells_loop_result [OF run] a obtain b' where b': "best buffers' = Some b'"
    "b' i = best_ref ?st"
    by auto
  from best_invariant_running [of ?sc nref] obtain v q where
    v: "best_score ?st = Finite v"
    and no: "\<forall>r<nref. \<not> float_greater (?sc r) (Finite v)"
    and which: "(v = - 1000 \<and> best_ref ?st = 0) \<or>
         (- 1000 < v \<and> best_ref ?st < nref \<and> ?sc (best_ref ?st) = Finite v \<and>
          (\<forall>r<best_ref ?st. ?sc r \<noteq> Finite v))"
    unfolding best_invariant_def by blast
  have "m \<le> v" using no a by fastforce
  then have w: "best_ref ?st < nref" "?sc (best_ref ?st) = Finite v"
    "\<forall>r<best_ref ?st. ?sc r \<noteq> Finite v"
    using which a by auto
  have "\<not> float_greater (?sc (best_ref ?st)) (Finite m)" using a w(1) by blast
  then have "v \<le> m" using w(2) by simp
  then have vm: "v = m" using \<open>m \<le> v\<close> by simp
  have "\<not> k < best_ref ?st" using w(3) a vm by auto
  then have "b' i \<le> k" using b'(2) by simp
  then show "\<exists>b'. best buffers' = Some b' \<and> b' i \<le> k \<and> score_of (b' i) i = Finite m \<and>
             (\<forall>r<b' i. score_of r i \<noteq> Finite m)"
    using b' w vm by auto
next
  fix n score
  let ?st = "running_after (\<lambda>r. score_of r i) n"
  assume "best_score (track score n ?st) \<noteq> best_score ?st \<or>
       best_ref (track score n ?st) \<noteq> best_ref ?st"
  then show "float_greater score (best_score ?st)"
    by (auto simp: track_def split: if_splits)
next
  fix n score
  let ?st = "running_after (\<lambda>r. score_of r i) n"
  assume c: "next_best (track score n ?st) \<noteq> next_best ?st"
  from best_invariant_running [of "\<lambda>r. score_of r i" n] obtain v q where
    v: "best_score ?st = Finite v" "next_best ?st = Finite q" "q \<le> v"
    unfolding best_invariant_def by blast
  show "float_greater score (next_best ?st)"
  proof (cases "float_greater score (best_score ?st)")
    case True
    then show ?thesis using v by (cases score) auto
  next
    case False
    then show ?thesis using c by (auto simp: track_def split: if_splits)
  qed
next
  assume "nref \<le> length (scores buffers)"
  then show "\<exists>buffers'. classify_block score_of float_minus nref start len buffers = Some buffers'"
    unfolding classify_block_def by (rule cells_loop_total)
qed

theorem first_best_reference_wins_witness:
  "classify_block (\<lambda>r i. Finite 1) (\<lambda>a b. NaN) 2 0 2
       \<lparr>best = Some (\<lambda>i. 7), scores = [None, None], delta = None\<rparr>
     = Some \<lparr>best = Some ((\<lambda>i. 7)(0 := 0, 1 := 0)), scores = [None, None], delta = None\<rparr>
   \<and> best \<lparr>best = Some (\<lambda>i. 7), scores = [None, None], delta = None\<rparr> = Some (\<lambda>i. 7)
   \<and> (0 :: nat) \<le> 1 \<and> (1 :: nat) < 0 + 2 \<and> (1 :: nat) < 2 \<and> (- 1000 :: real) < 1
   \<and> \<not> float_greater (Finite 1) (Finite 1)
   \<and> (2 :: nat) \<le> length (scores \<lparr>best = Some (\<lambda>i. 7), scores = [None, None], delta = None\<rparr>)
   \<and> ((\<lambda>i. 7 :: nat)(0 := 0, 1 := 0)) 1 = 0"
proof -
  have e: "classify_block (\<lambda>r i. Finite 1) (\<lambda>a b. NaN) 2 0 2
       \<lparr>best = Some (\<lambda>i. 7), scores = [None, None], delta = None\<rparr>
     = Some \<lparr>best = Some ((\<lambda>i. 7)(0 := 0, 1 := 0)), scores = [None, None], delta = None\<rparr>"
    by (simp add: eval_classify)
  show ?thesis
    using first_best_reference_wins [of "\<lambda>r i. Finite 1" "\<lambda>a b. NaN" 2 0 2
        "\<lparr>best = Some (\<lambda>i. 7), scores = [None, None], delta = None\<rparr>" 1] e
    by simp
qed

text \<open>
  Claim C6. When \<open>classify_integrated\<close> runs with exactly one reference and a
  \<open>delta\<close> buffer that is not null, the delta of every cell is the not-a-number,
  whatever the scores are; with more than one reference it is \<open>best_score - next_best\<close>,
  which is the best score minus the second-best score: for scores that are numbers above
  \<open>-1000\<close> there are two different references \<open>b\<close> and \<open>s\<close> such that no
  reference scores higher than \<open>b\<close>, no reference other than \<open>b\<close> scores higher than
  \<open>s\<close>, and the delta is the score of \<open>b\<close> minus the score of \<open>s\<close>.
\<close>

theorem delta_of_one_and_of_several_references:
  "(\<forall>buffers' d.
      classify_block score_of float_minus nref start len buffers = Some buffers' \<and>
      delta buffers = Some d \<and> start \<le> i \<and> i < start + len
      \<longrightarrow> (\<exists>d'. delta buffers' = Some d' \<and>
             (nref = 1 \<longrightarrow> d' i = NaN) \<and>
             (1 < nref \<longrightarrow>
                d' i = float_minus (best_score (running_after (\<lambda>r. score_of r i) nref))
                         (next_best (running_after (\<lambda>r. score_of r i) nref))) \<and>
             (1 < nref \<and> (\<forall>r<nref. \<exists>x. score_of r i = Finite x \<and> - 1000 < x) \<longrightarrow>
                (\<exists>b s. b < nref \<and> s < nref \<and> s \<noteq> b \<and>
                   (\<forall>r<nref. \<not> float_greater (score_of r i) (score_of b i)) \<and>
                   (\<forall>r<nref. r \<noteq> b \<longrightarrow> \<not> float_greater (score_of r i) (score_of s i)) \<and>
                   d' i = float_minus (score_of b i) (score_of s i))))) \<and>
   (nref \<le> length (scores buffers) \<longrightarrow>
      (\<exists>buffers'. classify_block score_of float_minus nref start len buffers = Some buffers'))"
proof (intro conjI allI impI)
  fix buffers' d
  assume a: "classify_block score_of float_minus nref start len buffers = Some buffers' \<and>
      delta buffers = Some d \<and> start \<le> i \<and> i < start + len"
  let ?sc = "\<lambda>r. score_of r i"
  let ?st = "running_after ?sc nref"
  from a have run: "for_loop (classify_cell score_of float_minus nref) [start..<start + len] buffers
      = Some buffers'"
    by (simp add: classify_block_def)
  from cells_loop_result [OF run] a obtain d' where d': "delta buffers' = Some d'"
    "d' i = (if nref > 1 then float_minus (best_score ?st) (next_best ?st) else NaN)"
    by auto
  have two: "\<exists>b s. b < nref \<and> s < nref \<and> s \<noteq> b \<and>
                   (\<forall>r<nref. \<not> float_greater (score_of r i) (score_of b i)) \<and>
                   (\<forall>r<nref. r \<noteq> b \<longrightarrow> \<not> float_greater (score_of r i) (score_of s i)) \<and>
                   d' i = float_minus (score_of b i) (score_of s i)"
    if n: "1 < nref" and fin: "\<forall>r<nref. \<exists>x. score_of r i = Finite x \<and> - 1000 < x"
  proof -
    define x where "x r = (case score_of r i of Finite v \<Rightarrow> v | NaN \<Rightarrow> 0)" for r
    have x: "\<forall>r<nref. ?sc r = Finite (x r) \<and> - 1000 < x r"
      using fin by (auto simp: x_def)
    obtain k where k: "nref = Suc k" using n by (cases nref) auto
    have "second_invariant x nref ?st"
      unfolding k by (rule second_invariant_running) (use x k in simp)
    then obtain s where b: "best_ref ?st < nref" "best_score ?st = Finite (x (best_ref ?st))"
      "\<forall>r<nref. x r \<le> x (best_ref ?st)"
      and s: "s < nref" "s \<noteq> best_ref ?st" "next_best ?st = Finite (x s)"
      "\<forall>r<nref. r \<noteq> best_ref ?st \<longrightarrow> x r \<le> x s"
      unfolding second_invariant_def using n by auto
    have "\<forall>r<nref. \<not> float_greater (score_of r i) (score_of (best_ref ?st) i)"
      using x b by auto
    moreover have "\<forall>r<nref. r \<noteq> best_ref ?st \<longrightarrow> \<not> float_greater (score_of r i) (score_of s i)"
      using x s by auto
    moreover have "d' i = float_minus (score_of (best_ref ?st) i) (score_of s i)"
      using d'(2) n b s x by simp
    ultimately show ?thesis using b(1) s(1,2) by blast
  qed
  show "\<exists>d'. delta buffers' = Some d' \<and>
             (nref = 1 \<longrightarrow> d' i = NaN) \<and>
             (1 < nref \<longrightarrow>
                d' i = float_minus (best_score (running_after (\<lambda>r. score_of r i) nref))
                         (next_best (running_after (\<lambda>r. score_of r i) nref))) \<and>
             (1 < nref \<and> (\<forall>r<nref. \<exists>x. score_of r i = Finite x \<and> - 1000 < x) \<longrightarrow>
                (\<exists>b s. b < nref \<and> s < nref \<and> s \<noteq> b \<and>
                   (\<forall>r<nref. \<not> float_greater (score_of r i) (score_of b i)) \<and>
                   (\<forall>r<nref. r \<noteq> b \<longrightarrow> \<not> float_greater (score_of r i) (score_of s i)) \<and>
                   d' i = float_minus (score_of b i) (score_of s i)))"
    using d' two by auto
next
  assume "nref \<le> length (scores buffers)"
  then show "\<exists>buffers'. classify_block score_of float_minus nref start len buffers = Some buffers'"
    unfolding classify_block_def by (rule cells_loop_total)
qed

theorem delta_of_one_and_of_several_references_witness:
  "classify_block (\<lambda>r i. Finite 3) (\<lambda>a b. Finite 0) 1 0 1
       \<lparr>best = None, scores = [None], delta = Some (\<lambda>i. Finite 5)\<rparr>
     = Some \<lparr>best = None, scores = [None], delta = Some ((\<lambda>i. Finite 5)(0 := NaN))\<rparr>
   \<and> classify_block (\<lambda>r i. if r = 0 then Finite 1 else Finite 3)
       (\<lambda>a b. case a of NaN \<Rightarrow> NaN | Finite x \<Rightarrow> (case b of NaN \<Rightarrow> NaN | Finite y \<Rightarrow> Finite (x - y)))
       2 0 1 \<lparr>best = None, scores = [None, None], delta = Some (\<lambda>i. Finite 5)\<rparr>
     = Some \<lparr>best = None, scores = [None, None], delta = Some ((\<lambda>i. Finite 5)(0 := Finite 2))\<rparr>
   \<and> delta \<lparr>best = None, scores = [None], delta = Some (\<lambda>i. Finite 5)\<rparr> = Some (\<lambda>i. Finite 5)
   \<and> (0 :: nat) \<le> 0 \<and> (0 :: nat) < 0 + 1 \<and> (1 :: nat) < 2
   \<and> (- 1000 :: real) < 1 \<and> (- 1000 :: real) < 3
   \<and> (1 :: nat) \<le> length (scores \<lparr>best = None, scores = [None], delta = Some (\<lambda>i. Finite 5)\<rparr>)
   \<and> ((\<lambda>i. Finite 5)(0 := NaN)) 0 = NaN
   \<and> ((\<lambda>i. Finite 5)(0 := Finite 2)) 0 = Finite (3 - 1)"
proof -
  have e1: "classify_block (\<lambda>r i. Finite 3) (\<lambda>a b. Finite 0) 1 0 1
       \<lparr>best = None, scores = [None], delta = Some (\<lambda>i. Finite 5)\<rparr>
     = Some \<lparr>best = None, scores = [None], delta = Some ((\<lambda>i. Finite 5)(0 := NaN))\<rparr>"
    by (simp add: eval_classify)
  have e2: "classify_block (\<lambda>r i. if r = 0 then Finite 1 else Finite 3)
       (\<lambda>a b. case a of NaN \<Rightarrow> NaN | Finite x \<Rightarrow> (case b of NaN \<Rightarrow> NaN | Finite y \<Rightarrow> Finite (x - y)))
       2 0 1 \<lparr>best = None, scores = [None, None], delta = Some (\<lambda>i. Finite 5)\<rparr>
     = Some \<lparr>best = None, scores = [None, None], delta = Some ((\<lambda>i. Finite 5)(0 := Finite 2))\<rparr>"
    by (simp add: eval_classify)
  show ?thesis
    using delta_of_one_and_of_several_references [of "\<lambda>r i. Finite 3" "\<lambda>a b. Finite 0" 1 0 1
        "\<lparr>best = None, scores = [None], delta = Some (\<lambda>i. Finite 5)\<rparr>" 0]
      delta_of_one_and_of_several_references [of "\<lambda>r i. if r = 0 then Finite 1 else Finite 3"
        "\<lambda>a b. case a of NaN \<Rightarrow> NaN | Finite x \<Rightarrow> (case b of NaN \<Rightarrow> NaN | Finite y \<Rightarrow> Finite (x - y))"
        2 0 1 "\<lparr>best = None, scores = [None, None], delta = Some (\<lambda>i. Finite 5)\<rparr>" 0]
      e1 e2
    by simp
qed

end
